theory Spec2Isabelle
  imports Main "HOL-Library.AList"
begin

section \<open>Synchronising relation nodes of a rich-text document with the M2A store\<close>

text \<open>
  A shallow embedding of \<^verbatim>\<open>src/interface/composables/use-sync-relation-nodes.ts\<close>.
  The composable closes over three collaborators: the editor (a ProseMirror document),
  the shared M2A item store and the relation handle. All three are mutable, so the
  embedding passes them around explicitly in one record and every function returns the
  updated record. The node objects of the document are mutable too and can be shared, so
  they live in a heap that the same record holds. A JavaScript exception is a value of
  type \<open>error\<close>. The functions keep their names, without the leading underscore of the
  private ones; the callback of \<^verbatim>\<open>syncInsertedNodes\<close> is \<open>syncInsertedNode\<close>, and the two
  \<^verbatim>\<open>forEach\<close> loops are \<open>syncInsertedNodesLoop\<close> and \<open>removeRelatedItemsLoop\<close>.
  \<^verbatim>\<open>initFetchedItems\<close> seeds the store before the first pass and is not part of the pass.
\<close>

subsection \<open>Values, items and errors\<close>

type_synonym UUID = string

datatype jsval = Num int | Str string | Obj "(string \<times> jsval) list"

text \<open>
  An object is modelled by what its properties read: a property that is absent and a
  property that holds \<^verbatim>\<open>undefined\<close> both read as \<open>None\<close>.
\<close>

type_synonym Item = "string \<rightharpoonup> jsval"

datatype error = TypeError | RangeError

subsection \<open>The editor document\<close>

record Attrs =
  attrs_id :: UUID
  attrs_rest :: "string \<rightharpoonup> jsval"

record ProseMirrorNode =
  typeName :: string
  attrs :: Attrs

text \<open>
  A node object is referred to by its address in the heap of node objects (a list; the
  address is the index). The document and the snapshot of a pass hold addresses: one
  object can sit at several positions, and a write into the object shows at all of
  them. The document is the sequence of its descendant nodes in document order; the
  position of a node is its index in that sequence. \<^verbatim>\<open>setNodeMarkup\<close> puts a new object
  of the same type at a position and changes no other position, so positions read at
  the start of a pass stay valid during the pass.
\<close>

record NodeWithPos =
  node :: nat
  pos :: nat

record Transaction =
  steps :: "(nat \<times> Attrs) list"
  meta :: "(string \<times> bool) list"

record Editor =
  doc :: "nat list"
  dispatched :: "Transaction list"

subsection \<open>The M2A item store\<close>

text \<open>
  Modelled from the spec: the module \<^verbatim>\<open>use-m2a-store\<close> is not part of the sources at
  hand. A store item carries the related item's data, optional pending edits, the
  \<open>active\<close> and \<open>isNew\<close> flags and the editor field that owns it.
\<close>

record M2AStoreItem =
  item :: Item
  edits :: "Item option"
  active :: bool
  isNew :: bool
  ownerField :: "string option"

text \<open>
  Modelled from the spec: the store's mutating operations \<^verbatim>\<open>duplicateItem\<close> (with the
  identity it returns), \<^verbatim>\<open>activateItem\<close>, \<^verbatim>\<open>setField\<close> and the deactivation of an identity
  by \<^verbatim>\<open>deactivateUnusedItems\<close>. The store keeps a record of them, in the order in which
  they happen.
\<close>

datatype store_call =
    DuplicateItem UUID UUID
  | ActivateItem UUID
  | SetField UUID "string option"
  | DeactivateItem UUID

text \<open>
  Modelled from the spec: the store is a keyed collection (an association list, the
  first entry of a key counts). Identities handed out by \<^verbatim>\<open>duplicateItem\<close> come from
  a generator: \<open>uuids st n\<close> is the \<open>n\<close>-th identity it produces and \<open>issued st\<close> counts
  the ones produced so far.
\<close>

record M2AStore =
  items :: "(UUID \<times> M2AStoreItem) list"
  uuids :: "nat \<Rightarrow> UUID"
  issued :: nat
  mutations :: "store_call list"

text \<open>Modelled from the spec: \<^verbatim>\<open>getItem(id) -> item|undefined\<close>, the store's lookup.\<close>

definition getItem :: "M2AStore \<Rightarrow> UUID \<Rightarrow> M2AStoreItem option" where
  "getItem st nodeId = map_of (items st) nodeId"

text \<open>Modelled from the spec: \<^verbatim>\<open>itemExists(id) -> bool\<close>.\<close>

definition itemExists :: "M2AStore \<Rightarrow> UUID \<Rightarrow> bool" where
  "itemExists st nodeId = (getItem st nodeId \<noteq> None)"

text \<open>Modelled from the spec: \<^verbatim>\<open>itemIsActive(id) -> bool\<close>, the \<open>active\<close> flag of the item.\<close>

definition itemIsActive :: "M2AStore \<Rightarrow> UUID \<Rightarrow> bool" where
  "itemIsActive st nodeId = (case getItem st nodeId of None \<Rightarrow> False | Some it \<Rightarrow> active it)"

text \<open>Modelled from the spec: \<^verbatim>\<open>itemIsNew(id) -> bool\<close>, the \<open>isNew\<close> flag of the item.\<close>

definition itemIsNew :: "M2AStore \<Rightarrow> UUID \<Rightarrow> bool" where
  "itemIsNew st nodeId = (case getItem st nodeId of None \<Rightarrow> False | Some it \<Rightarrow> isNew it)"

text \<open>
  Modelled from the spec: ``the store item is currently owned by a different editor
  field than this one''.
\<close>

definition itemFromDifferentEditor :: "M2AStore \<Rightarrow> UUID \<Rightarrow> string option \<Rightarrow> bool" where
  "itemFromDifferentEditor st nodeId editorField =
     (case getItem st nodeId of None \<Rightarrow> False | Some it \<Rightarrow> ownerField it \<noteq> editorField)"

text \<open>
  Modelled from the spec: the store is keyed by identity; writing an item under a key
  replaces the item the key had, or adds the key at the end.
\<close>

definition setItem :: "M2AStore \<Rightarrow> UUID \<Rightarrow> M2AStoreItem \<Rightarrow> M2AStore" where
  "setItem st nodeId it = st\<lparr>items := AList.update nodeId it (items st)\<rparr>"

text \<open>Modelled from the spec: ``mark the store item active again''.\<close>

definition activateItem :: "M2AStore \<Rightarrow> UUID \<Rightarrow> M2AStore" where
  "activateItem st nodeId =
     (let st1 = st\<lparr>mutations := mutations st @ [ActivateItem nodeId]\<rparr>
      in case getItem st nodeId of
           None \<Rightarrow> st1
         | Some it \<Rightarrow> setItem st1 nodeId (it\<lparr>active := True\<rparr>))"

text \<open>Modelled from the spec: ``reassign its ownership to this field in the store''.\<close>

definition setField :: "M2AStore \<Rightarrow> UUID \<Rightarrow> string option \<Rightarrow> M2AStore" where
  "setField st nodeId editorField =
     (let st1 = st\<lparr>mutations := mutations st @ [SetField nodeId editorField]\<rparr>
      in case getItem st nodeId of
           None \<Rightarrow> st1
         | Some it \<Rightarrow> setItem st1 nodeId (it\<lparr>ownerField := editorField\<rparr>))"

text \<open>
  Modelled from the spec: ``request a fresh identity for a duplicate record (copying the
  original item's data)''; the duplicate is a new item (``treat duplicate-assignment as
  always producing a new item''). The relation handle is an argument of the call and
  is not read by the model.
\<close>

definition duplicateItem :: "M2AStore \<Rightarrow> UUID \<Rightarrow> 'r \<Rightarrow> UUID \<times> M2AStore" where
  "duplicateItem st nodeId m2aRelation =
     (let newId = uuids st (issued st);
          st1 = st\<lparr>issued := Suc (issued st),
                    mutations := mutations st @ [DuplicateItem nodeId newId]\<rparr>
      in (newId,
          case getItem st nodeId of
            None \<Rightarrow> st1
          | Some it \<Rightarrow> setItem st1 newId (it\<lparr>isNew := True\<rparr>)))"

text \<open>
  Modelled from the spec: an identity is unused when its item is active and owned by
  this field and the identity is not among the current ones.
\<close>

definition unusedItem :: "M2AStore \<Rightarrow> UUID list \<Rightarrow> string option \<Rightarrow> UUID \<Rightarrow> bool" where
  "unusedItem st currentIds editorField k =
     (case getItem st k of
        None \<Rightarrow> False
      | Some it \<Rightarrow> active it \<and> ownerField it = editorField \<and> k \<notin> set currentIds)"

text \<open>
  Modelled from the spec: \<^verbatim>\<open>deactivateUnusedItems(currentIds, field) -> deactivatedIds\<close>
  returns the unused identities, in the order of the store, and flips their items to
  inactive.
\<close>

definition deactivateUnusedItems ::
  "M2AStore \<Rightarrow> UUID list \<Rightarrow> string option \<Rightarrow> UUID list \<times> M2AStore" where
  "deactivateUnusedItems st currentIds editorField =
     (let unused = filter (unusedItem st currentIds editorField) (remdups (map fst (items st)))
      in (unused,
          st\<lparr>items := map (\<lambda>(k, it). if k \<in> set unused then (k, it\<lparr>active := False\<rparr>) else (k, it))
                          (items st),
             mutations := mutations st @ map DeactivateItem unused\<rparr>))"

subsection \<open>The relation handle\<close>

text \<open>
  Modelled from the spec: the relation collection is an external collaborator with the
  operations \<^verbatim>\<open>findDisplayItem\<close>, \<^verbatim>\<open>create\<close>, \<^verbatim>\<open>update\<close>, \<^verbatim>\<open>remove\<close> and \<^verbatim>\<open>deleteItem\<close>.
  It is modelled by the calls it has received; what a lookup returns may depend on them.
  An argument that may be \<^verbatim>\<open>undefined\<close> is an option.
\<close>

datatype rel_call =
    Create Item
  | Update "Item option"
  | Remove "Item option"
  | DeleteItem Item

record RelationReference =
  displayItems :: "rel_call list \<Rightarrow> UUID \<rightharpoonup> Item"
  calls :: "rel_call list"

text \<open>Modelled from the spec: \<^verbatim>\<open>findDisplayItem(id) -> item|undefined\<close>.\<close>

definition findDisplayItem :: "RelationReference \<Rightarrow> UUID \<Rightarrow> Item option" where
  "findDisplayItem rel nodeId = displayItems rel (calls rel) nodeId"

text \<open>
  Modelled from the spec: \<^verbatim>\<open>create(item)\<close>, \<^verbatim>\<open>update(edits)\<close>, \<^verbatim>\<open>remove(item)\<close> and
  \<^verbatim>\<open>deleteItem(item)\<close>; each is recorded with the argument it receives. \<^verbatim>\<open>update\<close> is
  handed the \<open>edits\<close> property of a store item and \<^verbatim>\<open>remove\<close> the result of a lookup,
  as they are.
\<close>

definition create :: "RelationReference \<Rightarrow> Item \<Rightarrow> RelationReference" where
  "create rel it = rel\<lparr>calls := calls rel @ [Create it]\<rparr>"

definition update :: "RelationReference \<Rightarrow> Item option \<Rightarrow> RelationReference" where
  "update rel e = rel\<lparr>calls := calls rel @ [Update e]\<rparr>"

definition remove :: "RelationReference \<Rightarrow> Item option \<Rightarrow> RelationReference" where
  "remove rel it = rel\<lparr>calls := calls rel @ [Remove it]\<rparr>"

definition deleteItem :: "RelationReference \<Rightarrow> Item \<Rightarrow> RelationReference" where
  "deleteItem rel it = rel\<lparr>calls := calls rel @ [DeleteItem it]\<rparr>"

subsection \<open>The state the composable closes over\<close>

record SyncState =
  m2aStore :: M2AStore
  m2aRelation :: RelationReference
  editor :: "Editor option"
  editorField :: "string option"
  heap :: "ProseMirrorNode list"

subsection \<open>The identity memory of one pass\<close>

text \<open>\<^verbatim>\<open>Array.prototype.indexOf\<close>: the first index of the element, or \<open>-1\<close>.\<close>

fun indexOf :: "'a list \<Rightarrow> 'a \<Rightarrow> int" where
  "indexOf [] x = -1"
| "indexOf (y # ys) x =
     (if y = x then 0 else (let i = indexOf ys x in if i < 0 then -1 else i + 1))"

text \<open>
  \<^verbatim>\<open>Array.prototype.splice(start, deleteCount, ...items)\<close>: a negative start counts from
  the end and both arguments are clamped to the array.
\<close>

definition splice :: "int \<Rightarrow> int \<Rightarrow> 'a list \<Rightarrow> 'a list \<Rightarrow> 'a list" where
  "splice start deleteCount ins xs =
     (let len = int (length xs);
          s = (if start < 0 then max (len + start) 0 else min start len);
          d = min (max deleteCount 0) (len - s)
      in take (nat s) xs @ ins @ drop (nat (s + d)) xs)"

definition nodeIdMemory :: "UUID list" where
  "nodeIdMemory = []"

definition nodeIdUniqueInEditor :: "UUID list \<Rightarrow> UUID \<Rightarrow> bool \<times> UUID list" where
  "nodeIdUniqueInEditor nodeIds nodeId =
     (let isUnique = indexOf nodeIds nodeId < 0
      in (isUnique, nodeIds @ [nodeId]))"

definition replaceLastItem :: "UUID list \<Rightarrow> UUID \<Rightarrow> UUID list" where
  "replaceLastItem nodeIds nodeId = splice (int (length nodeIds) - 1) 1 [nodeId] nodeIds"

subsection \<open>Reading and patching the document\<close>

definition getExistingEditorNodes :: "SyncState \<Rightarrow> error + NodeWithPos list" where
  "getExistingEditorNodes s =
     (case editor s of
        None \<Rightarrow> Inl TypeError
      | Some e \<Rightarrow>
          Inr (map (\<lambda>p. \<lparr>node = doc e ! p, pos = p\<rparr>)
                 (filter (\<lambda>p. typeName (heap s ! (doc e ! p)) = ''relation-block'')
                    [0..<length (doc e)])))"

text \<open>\<^verbatim>\<open>setNodeMarkup\<close> raises a RangeError when there is no node at the position.\<close>

definition setNodeMarkup :: "Editor \<Rightarrow> Transaction \<Rightarrow> nat \<Rightarrow> Attrs \<Rightarrow> error + Transaction" where
  "setNodeMarkup e tr p updatedAttrs =
     (if p < length (doc e) then Inr (tr\<lparr>steps := steps tr @ [(p, updatedAttrs)]\<rparr>)
      else Inl RangeError)"

definition setMeta :: "Transaction \<Rightarrow> string \<Rightarrow> bool \<Rightarrow> Transaction" where
  "setMeta tr k v = tr\<lparr>meta := meta tr @ [(k, v)]\<rparr>"

text \<open>
  A step of a transaction: a new node object, with the type of the node that is at the
  position and with the given attributes, takes the position.
\<close>

fun applyStep ::
  "nat \<times> Attrs \<Rightarrow> ProseMirrorNode list \<times> nat list \<Rightarrow> ProseMirrorNode list \<times> nat list" where
  "applyStep (p, a) (h, d) = (h @ [(h ! (d ! p))\<lparr>attrs := a\<rparr>], d[p := length h])"

definition dispatch :: "SyncState \<Rightarrow> Editor \<Rightarrow> Transaction \<Rightarrow> SyncState" where
  "dispatch s e tr =
     (let (h, d) = fold applyStep (steps tr) (heap s, doc e)
      in s\<lparr>heap := h,
           editor := Some (e\<lparr>doc := d, dispatched := dispatched e @ [tr]\<rparr>)\<rparr>)"

text \<open>
  After the dispatch the function assigns the new attributes to the node object it was
  given, the one the snapshot holds (line 156): a write into the heap, which every
  position that holds this object sees.
\<close>

definition updateNodeAttrs :: "SyncState \<Rightarrow> nat \<Rightarrow> nat \<Rightarrow> Attrs \<Rightarrow> error + SyncState" where
  "updateNodeAttrs s nd p updatedAttrs =
     (case editor s of
        None \<Rightarrow> Inl TypeError
      | Some e \<Rightarrow>
          (case setNodeMarkup e \<lparr>steps = [], meta = []\<rparr> p updatedAttrs of
             Inl err \<Rightarrow> Inl err
           | Inr tr0 \<Rightarrow>
               (let tr1 = setMeta tr0 ''addToHistory'' False;
                    tr2 = setMeta tr1 ''preventUpdate'' True;
                    s1 = dispatch s e tr2
                in Inr (s1\<lparr>heap := (heap s1)[nd := (heap s1 ! nd)\<lparr>attrs := updatedAttrs\<rparr>]\<rparr>))))"

definition refreshEditorNodeId :: "SyncState \<Rightarrow> UUID \<Rightarrow> nat \<Rightarrow> nat \<Rightarrow> error + SyncState" where
  "refreshEditorNodeId s nodeId nd p =
     updateNodeAttrs s nd p ((attrs (heap s ! nd))\<lparr>attrs_id := nodeId\<rparr>)"

subsection \<open>Removal reconciliation\<close>

fun removeRelatedItemsLoop :: "RelationReference \<Rightarrow> UUID list \<Rightarrow> RelationReference" where
  "removeRelatedItemsLoop rel [] = rel"
| "removeRelatedItemsLoop rel (nodeId # nodeIds) =
     (case findDisplayItem rel nodeId of
        None \<Rightarrow> removeRelatedItemsLoop rel nodeIds
      | Some relatedItem \<Rightarrow> removeRelatedItemsLoop (deleteItem rel relatedItem) nodeIds)"

definition removeRelatedItems :: "SyncState \<Rightarrow> UUID list \<Rightarrow> SyncState" where
  "removeRelatedItems s nodeIds =
     (if length nodeIds = 0 then s
      else s\<lparr>m2aRelation := removeRelatedItemsLoop (m2aRelation s) nodeIds\<rparr>)"

definition syncRemovedNodes :: "SyncState \<Rightarrow> NodeWithPos list \<Rightarrow> SyncState" where
  "syncRemovedNodes s editorNodes =
     (let existingNodeIds = map (\<lambda>nwp. attrs_id (attrs (heap s ! node nwp))) editorNodes;
          (inactiveNodeIds, st) = deactivateUnusedItems (m2aStore s) existingNodeIds (editorField s)
      in removeRelatedItems (s\<lparr>m2aStore := st\<rparr>) inactiveNodeIds)"

subsection \<open>Insertion and update reconciliation\<close>

definition reactivateRelatedItem :: "SyncState \<Rightarrow> UUID \<Rightarrow> SyncState" where
  "reactivateRelatedItem s nodeId =
     (let relatedItem = findDisplayItem (m2aRelation s) nodeId
      in s\<lparr>m2aRelation := remove (m2aRelation s) relatedItem\<rparr>)"

text \<open>
  \<open>storeItem\<close> is the object the store holds under \<open>nodeId\<close>: the assignment to its
  \<open>edits\<close> is a write into the store. The function returns the object as well, for the
  caller that reads \<open>edits\<close> next.
\<close>

definition mergeUpdatedValues ::
  "SyncState \<Rightarrow> M2AStoreItem \<Rightarrow> UUID \<Rightarrow> SyncState \<times> M2AStoreItem" where
  "mergeUpdatedValues s storeItem nodeId =
     (case findDisplayItem (m2aRelation s) nodeId of
        None \<Rightarrow> (s, storeItem)
      | Some it \<Rightarrow>
          (let merged = (case edits storeItem of None \<Rightarrow> Map.empty | Some e \<Rightarrow> e)
                          (''$type'' := it ''$type'', ''$index'' := it ''$index'',
                           ''$edits'' := it ''$edits'');
               storeItem1 = storeItem\<lparr>edits := Some merged\<rparr>
           in (s\<lparr>m2aStore := setItem (m2aStore s) nodeId storeItem1\<rparr>, storeItem1)))"

text \<open>
  The body of the \<^verbatim>\<open>forEach\<close> callback of \<^verbatim>\<open>syncInsertedNodes\<close>, for one node of the
  snapshot. Reading a property of the result of \<^verbatim>\<open>getItem\<close> raises a TypeError when the
  lookup has failed.
\<close>

definition syncInsertedNode ::
  "SyncState \<Rightarrow> UUID list \<Rightarrow> NodeWithPos \<Rightarrow> error + (SyncState \<times> UUID list)" where
  "syncInsertedNode s memory nwp =
     (let nodeId = attrs_id (attrs (heap s ! node nwp)) in
      if \<not> itemExists (m2aStore s) nodeId then Inr (s, memory)
      else
        let storeItemIsActive = itemIsActive (m2aStore s) nodeId;
            (nodeIdIsUnique, memory1) = nodeIdUniqueInEditor memory nodeId;
            nodeFromDifferentEditor =
              itemFromDifferentEditor (m2aStore s) nodeId (editorField s)
        in
        if storeItemIsActive \<and> nodeIdIsUnique \<and> \<not> nodeFromDifferentEditor then Inr (s, memory1)
        else
          (case (if storeItemIsActive then
                   (let (newId, st) = duplicateItem (m2aStore s) nodeId (m2aRelation s) in
                    case refreshEditorNodeId (s\<lparr>m2aStore := st\<rparr>) newId (node nwp) (pos nwp) of
                      Inl err \<Rightarrow> Inl err
                    | Inr s1 \<Rightarrow> Inr (newId, s1, replaceLastItem memory1 newId))
                 else Inr (nodeId, s\<lparr>m2aStore := activateItem (m2aStore s) nodeId\<rparr>, memory1))
           of
             Inl err \<Rightarrow> Inl err
           | Inr (nodeId2, s2, memory2) \<Rightarrow>
               (let s3 = (if nodeFromDifferentEditor
                          then s2\<lparr>m2aStore := setField (m2aStore s2) nodeId2 (editorField s2)\<rparr>
                          else s2);
                    storeItemReactivated = (\<not> storeItemIsActive);
                    storeItemNotNew = (\<not> itemIsNew (m2aStore s3) nodeId2)
                in case getItem (m2aStore s3) nodeId2 of
                     None \<Rightarrow> Inl TypeError
                   | Some storeItem \<Rightarrow>
                       if storeItemNotNew \<and> storeItemReactivated then
                         (let s4 = reactivateRelatedItem s3 nodeId2 in
                          case edits storeItem of
                            None \<Rightarrow> Inr (s4, memory2)
                          | Some e \<Rightarrow>
                              (let (s5, storeItem1) = mergeUpdatedValues s4 storeItem nodeId2
                               in Inr (s5\<lparr>m2aRelation :=
                                             update (m2aRelation s5) (edits storeItem1)\<rparr>,
                                       memory2)))
                       else
                         Inr (s3\<lparr>m2aRelation := create (m2aRelation s3) (item storeItem)\<rparr>,
                              memory2))))"

fun syncInsertedNodesLoop ::
  "SyncState \<Rightarrow> UUID list \<Rightarrow> NodeWithPos list \<Rightarrow> error + (SyncState \<times> UUID list)" where
  "syncInsertedNodesLoop s memory [] = Inr (s, memory)"
| "syncInsertedNodesLoop s memory (nwp # editorNodes) =
     (case syncInsertedNode s memory nwp of
        Inl err \<Rightarrow> Inl err
      | Inr (s1, memory1) \<Rightarrow> syncInsertedNodesLoop s1 memory1 editorNodes)"

definition syncInsertedNodes :: "SyncState \<Rightarrow> NodeWithPos list \<Rightarrow> error + SyncState" where
  "syncInsertedNodes s editorNodes =
     (case syncInsertedNodesLoop s nodeIdMemory editorNodes of
        Inl err \<Rightarrow> Inl err
      | Inr (s1, memory) \<Rightarrow> Inr s1)"

subsection \<open>The synchronisation pass\<close>

definition syncRelationNodes :: "SyncState \<Rightarrow> error + SyncState" where
  "syncRelationNodes s =
     (case getExistingEditorNodes s of
        Inl err \<Rightarrow> Inl err
      | Inr editorNodes \<Rightarrow> syncInsertedNodes (syncRemovedNodes s editorNodes) editorNodes)"

subsection \<open>Notions used in the statements\<close>

text \<open>
  The transaction that \<^verbatim>\<open>_updateNodeAttrs\<close> dispatches: one attribute patch, kept out
  of the undo history and marked so that it does not trigger an update.
\<close>

definition silentMarkup :: "nat \<Rightarrow> Attrs \<Rightarrow> Transaction" where
  "silentMarkup p a =
     \<lparr>steps = [(p, a)], meta = [(''addToHistory'', False), (''preventUpdate'', True)]\<rparr>"

text \<open>
  The heap after \<^verbatim>\<open>_updateNodeAttrs\<close>: a new object with the attributes \<open>a\<close> and the type
  of the object at the address \<open>old\<close> (the one the document holds at the position) is
  added, and the attributes of the object at the address \<open>nd\<close> (the one the caller holds)
  are overwritten.
\<close>

definition patchedHeap :: "ProseMirrorNode list \<Rightarrow> nat \<Rightarrow> nat \<Rightarrow> Attrs \<Rightarrow> ProseMirrorNode list" where
  "patchedHeap h old nd a =
     (h @ [(h ! old)\<lparr>attrs := a\<rparr>])[nd := ((h @ [(h ! old)\<lparr>attrs := a\<rparr>]) ! nd)\<lparr>attrs := a\<rparr>]"

text \<open>
  The store after an inactive item has been activated and, when another field owned
  it, handed to this field: the calls the callback makes on lines 81 and 84.
\<close>

definition claimItem :: "M2AStore \<Rightarrow> UUID \<Rightarrow> M2AStoreItem \<Rightarrow> string option \<Rightarrow> M2AStore" where
  "claimItem st u it f =
     (if ownerField it \<noteq> f then setField (activateItem st u) u f else activateItem st u)"

subsection \<open>Notions used for whole passes\<close>

text \<open>The identity attribute of the node at a position of the document.\<close>

definition idAt :: "ProseMirrorNode list \<Rightarrow> Editor \<Rightarrow> nat \<Rightarrow> UUID" where
  "idAt h e p = attrs_id (attrs (h ! (doc e ! p)))"

text \<open>The positions of the relation blocks, their identities, and the snapshot that
  \<^verbatim>\<open>_getExistingEditorNodes\<close> returns for a document.\<close>

definition relationPositions :: "ProseMirrorNode list \<Rightarrow> Editor \<Rightarrow> nat list" where
  "relationPositions h e =
     filter (\<lambda>p. typeName (h ! (doc e ! p)) = ''relation-block'') [0..<length (doc e)]"

definition relationNodeIds :: "ProseMirrorNode list \<Rightarrow> Editor \<Rightarrow> UUID list" where
  "relationNodeIds h e = map (idAt h e) (relationPositions h e)"

definition snapshot :: "ProseMirrorNode list \<Rightarrow> Editor \<Rightarrow> NodeWithPos list" where
  "snapshot h e = map (\<lambda>p. \<lparr>node = doc e ! p, pos = p\<rparr>) (relationPositions h e)"

text \<open>
  Every address of the document is the address of an object, and no two relation blocks
  of the document are the same object.
\<close>

definition separateBlocks :: "ProseMirrorNode list \<Rightarrow> Editor \<Rightarrow> bool" where
  "separateBlocks h e =
     ((\<forall>a \<in> set (doc e). a < length h)
      \<and> distinct (map (\<lambda>p. doc e ! p) (relationPositions h e)))"

text \<open>The item of an identity is active and owned by the editor field of this pass.\<close>

definition ownedActive :: "SyncState \<Rightarrow> UUID \<Rightarrow> bool" where
  "ownedActive s k =
     (\<exists>it. getItem (m2aStore s) k = Some it \<and> active it \<and> ownerField it = editorField s)"

text \<open>
  What is assumed of the generator of identities: the identities it will still hand out
  differ from one another, are not keys of the store and are not among the given
  identities (those of the document).
\<close>

definition uuidsUnused :: "SyncState \<Rightarrow> UUID set \<Rightarrow> bool" where
  "uuidsUnused s ids =
     ((\<forall>m n. issued (m2aStore s) \<le> m \<and> m < n \<longrightarrow> uuids (m2aStore s) m \<noteq> uuids (m2aStore s) n)
      \<and> (\<forall>n \<ge> issued (m2aStore s).
            \<not> itemExists (m2aStore s) (uuids (m2aStore s) n) \<and> uuids (m2aStore s) n \<notin> ids))"

text \<open>
  The invariant of the loop over the snapshot: \<open>dps\<close> are the positions already
  visited, \<open>todo\<close> the nodes still to visit and \<open>tn\<close> the node types of the document.
  The relation blocks are separate objects, and the nodes still to visit are the
  objects at their positions. The memory holds the identities that the visited nodes
  now carry and that have a store item; they are distinct, and their items are active
  and owned by this field; every item that is active and owned by this field belongs to
  a node of the snapshot.
\<close>

definition passInv ::
  "string list \<Rightarrow> SyncState \<Rightarrow> UUID list \<Rightarrow> nat list \<Rightarrow> NodeWithPos list \<Rightarrow> bool" where
  "passInv tn s memory dps todo =
     (\<exists>e. editor s = Some e
        \<and> map (\<lambda>a. typeName (heap s ! a)) (doc e) = tn
        \<and> (\<forall>a \<in> set (doc e). a < length (heap s))
        \<and> distinct (map (\<lambda>p. doc e ! p) (dps @ map pos todo))
        \<and> (\<forall>p \<in> set (dps @ map pos todo). p < length (doc e))
        \<and> (\<forall>n \<in> set todo. doc e ! pos n = node n)
        \<and> memory = filter (itemExists (m2aStore s)) (map (idAt (heap s) e) dps)
        \<and> distinct memory
        \<and> (\<forall>u \<in> set memory. ownedActive s u)
        \<and> (\<forall>k. ownedActive s k \<longrightarrow> k \<in> idAt (heap s) e ` set (dps @ map pos todo))
        \<and> uuidsUnused s (idAt (heap s) e ` set (dps @ map pos todo)))"

text \<open>
  A node with identity \<open>u\<close> will be given a new identity: the item of \<open>u\<close> is active,
  and \<open>u\<close> is in the memory or the item belongs to another editor field (the test of
  lines 73 and 76).
\<close>

definition blocked :: "SyncState \<Rightarrow> UUID list \<Rightarrow> UUID \<Rightarrow> bool" where
  "blocked s memory u =
     (\<exists>it. getItem (m2aStore s) u = Some it \<and> active it
           \<and> (u \<in> set memory \<or> ownerField it \<noteq> editorField s))"

text \<open>
  The identity \<open>v\<close> that a node with identity \<open>u\<close> carries after the loop, given the
  identities of the nodes before it: one that the generator had not yet handed out, or
  \<open>u\<close> itself.
\<close>

definition finalId :: "SyncState \<Rightarrow> UUID list \<Rightarrow> UUID list \<Rightarrow> UUID \<Rightarrow> UUID \<Rightarrow> bool" where
  "finalId s memory earlier u v =
     (if u \<in> set earlier \<or> blocked s memory u
      then (\<exists>j \<ge> issued (m2aStore s). v = uuids (m2aStore s) j)
      else v = u)"

subsection \<open>Example states\<close>

definition relationBlock :: "UUID \<Rightarrow> ProseMirrorNode" where
  "relationBlock u =
     \<lparr>typeName = ''relation-block'', attrs = \<lparr>attrs_id = u, attrs_rest = Map.empty\<rparr>\<rparr>"

definition exampleUuids :: "nat \<Rightarrow> UUID" where
  "exampleUuids n = CHR ''N'' # replicate n CHR ''x''"

definition exampleItem :: "bool \<Rightarrow> bool \<Rightarrow> string \<Rightarrow> Item option \<Rightarrow> M2AStoreItem" where
  "exampleItem act new f e =
     \<lparr>item = [''title'' \<mapsto> Str ''t''], edits = e, active = act, isNew = new, ownerField = Some f\<rparr>"

text \<open>
  A state built from the store's items, the display items of the relation (the same
  after every call), the node objects, the document (the addresses of its nodes) and
  the editor field.
\<close>

definition exampleState ::
  "(UUID \<times> M2AStoreItem) list \<Rightarrow> (UUID \<rightharpoonup> Item) \<Rightarrow> ProseMirrorNode list \<Rightarrow> nat list
     \<Rightarrow> string option \<Rightarrow> SyncState" where
  "exampleState its disp h d f =
     \<lparr>m2aStore = \<lparr>items = its, uuids = exampleUuids, issued = 0, mutations = []\<rparr>,
      m2aRelation = \<lparr>displayItems = (\<lambda>cs. disp), calls = []\<rparr>,
      editor = Some \<lparr>doc = d, dispatched = []\<rparr>,
      editorField = f,
      heap = h\<rparr>"

text \<open>
  The scenario ``duplicate in the same document'': the store holds the active item
  \<open>U1\<close> of field \<open>F\<close> and the document holds two nodes with identity \<open>U1\<close>, which are
  two objects; and the state after one pass.
\<close>

definition duplicateBefore :: SyncState where
  "duplicateBefore =
     exampleState [(''U1'', exampleItem True False ''F'' None)] Map.empty
       [relationBlock ''U1'', relationBlock ''U1''] [0, 1] (Some ''F'')"

definition duplicateAfter :: SyncState where
  "duplicateAfter =
     \<lparr>m2aStore =
        \<lparr>items = [(''U1'', exampleItem True False ''F'' None), (''N'', exampleItem True True ''F'' None)],
         uuids = exampleUuids, issued = 1, mutations = [DuplicateItem ''U1'' ''N'']\<rparr>,
      m2aRelation = \<lparr>displayItems = (\<lambda>cs. Map.empty), calls = [Create [''title'' \<mapsto> Str ''t'']]\<rparr>,
      editor = Some \<lparr>doc = [0, 2],
                      dispatched = [silentMarkup 1 \<lparr>attrs_id = ''N'', attrs_rest = Map.empty\<rparr>]\<rparr>,
      editorField = Some ''F'',
      heap = [relationBlock ''U1'', relationBlock ''N'', relationBlock ''N'']\<rparr>"

text \<open>
  The same scenario with one node object at both positions of the document, as a
  copy leaves it; the state after one pass, and the state after a second pass.
\<close>

definition sharedBefore :: SyncState where
  "sharedBefore =
     exampleState [(''U1'', exampleItem True False ''F'' None)] Map.empty
       [relationBlock ''U1''] [0, 0] (Some ''F'')"

definition sharedAfter :: SyncState where
  "sharedAfter =
     \<lparr>m2aStore =
        \<lparr>items = [(''U1'', exampleItem True False ''F'' None), (''N'', exampleItem True True ''F'' None)],
         uuids = exampleUuids, issued = 1, mutations = [DuplicateItem ''U1'' ''N'']\<rparr>,
      m2aRelation = \<lparr>displayItems = (\<lambda>cs. Map.empty), calls = [Create [''title'' \<mapsto> Str ''t'']]\<rparr>,
      editor = Some \<lparr>doc = [0, 1],
                      dispatched = [silentMarkup 1 \<lparr>attrs_id = ''N'', attrs_rest = Map.empty\<rparr>]\<rparr>,
      editorField = Some ''F'',
      heap = [relationBlock ''N'', relationBlock ''N'']\<rparr>"

definition sharedAfterSecond :: SyncState where
  "sharedAfterSecond =
     \<lparr>m2aStore =
        \<lparr>items = [(''U1'', exampleItem False False ''F'' None), (''N'', exampleItem True True ''F'' None),
                  (''Nx'', exampleItem True True ''F'' None)],
         uuids = exampleUuids, issued = 2,
         mutations = [DuplicateItem ''U1'' ''N'', DeactivateItem ''U1'', DuplicateItem ''N'' ''Nx'']\<rparr>,
      m2aRelation = \<lparr>displayItems = (\<lambda>cs. Map.empty),
                     calls = [Create [''title'' \<mapsto> Str ''t''], Create [''title'' \<mapsto> Str ''t'']]\<rparr>,
      editor = Some \<lparr>doc = [0, 2],
                      dispatched = [silentMarkup 1 \<lparr>attrs_id = ''N'', attrs_rest = Map.empty\<rparr>,
                                    silentMarkup 1 \<lparr>attrs_id = ''Nx'', attrs_rest = Map.empty\<rparr>]\<rparr>,
      editorField = Some ''F'',
      heap = [relationBlock ''N'', relationBlock ''Nx'', relationBlock ''Nx'']\<rparr>"

text \<open>
  The scenario ``cross-field move'': the store holds the active item \<open>U1\<close> of field
  \<open>F1\<close>, and the document of field \<open>F2\<close> holds a node with identity \<open>U1\<close>; and the
  state after one pass of \<open>F2\<close>.
\<close>

definition crossFieldBefore :: SyncState where
  "crossFieldBefore =
     exampleState [(''U1'', exampleItem True False ''F1'' None)] Map.empty
       [relationBlock ''U1''] [0] (Some ''F2'')"

definition crossFieldAfter :: SyncState where
  "crossFieldAfter =
     \<lparr>m2aStore =
        \<lparr>items = [(''U1'', exampleItem True False ''F1'' None), (''N'', exampleItem True True ''F2'' None)],
         uuids = exampleUuids, issued = 1,
         mutations = [DuplicateItem ''U1'' ''N'', SetField ''N'' (Some ''F2'')]\<rparr>,
      m2aRelation = \<lparr>displayItems = (\<lambda>cs. Map.empty), calls = [Create [''title'' \<mapsto> Str ''t'']]\<rparr>,
      editor = Some \<lparr>doc = [1],
                      dispatched = [silentMarkup 0 \<lparr>attrs_id = ''N'', attrs_rest = Map.empty\<rparr>]\<rparr>,
      editorField = Some ''F2'',
      heap = [relationBlock ''N'', relationBlock ''N'']\<rparr>"

section \<open>Properties\<close>

subsection \<open>The identity memory\<close>

lemma indexOf_neg_iff: "indexOf xs x < 0 \<longleftrightarrow> x \<notin> set xs"
  by (induction xs) (auto simp: Let_def)

lemma nodeIdUniqueInEditor_eq:
  "nodeIdUniqueInEditor nodeIds nodeId = (nodeId \<notin> set nodeIds, nodeIds @ [nodeId])"
  by (simp add: nodeIdUniqueInEditor_def indexOf_neg_iff)

lemma replaceLastItem_snoc: "replaceLastItem (nodeIds @ [x]) nodeId = nodeIds @ [nodeId]"
  by (simp add: replaceLastItem_def splice_def Let_def)

lemma replaceLastItem_Nil: "replaceLastItem [] nodeId = [nodeId]"
  by (simp add: replaceLastItem_def splice_def Let_def)

text \<open>
  C8, as stated: the check-and-record operation returns whether the identity was already
  present in the sequence. On the empty memory the operation returns true for an
  identity that was not seen: the result says that the identity is unique.
\<close>

theorem C8_returns_seen_counterexample:
  "\<not> (fst (nodeIdUniqueInEditor [] ''U1'') = (''U1'' \<in> set ([] :: UUID list)))"
  by (simp add: nodeIdUniqueInEditor_def)

text \<open>
  C8, amended: for every sequence of recorded identities and every queried identity,
  the check-and-record operation returns whether the identity was not yet seen (true
  exactly when it is absent from the sequence before the call) and appends the identity
  to the sequence; the replace-last operation replaces exactly the most recently
  recorded identity with the given one and leaves all earlier entries unchanged (on an
  empty memory it records the given identity).
\<close>

theorem C8_memory_check_and_record:
  "nodeIdUniqueInEditor nodeIds nodeId = (nodeId \<notin> set nodeIds, nodeIds @ [nodeId])
   \<and> replaceLastItem (nodeIds @ [x]) newId = nodeIds @ [newId]
   \<and> replaceLastItem [] newId = [newId]"
  by (simp add: nodeIdUniqueInEditor_eq replaceLastItem_snoc replaceLastItem_Nil)

subsection \<open>The store\<close>

lemma getItem_setItem: "getItem (setItem st k it) = (getItem st)(k \<mapsto> it)"
  by (rule ext) (simp add: getItem_def setItem_def update_conv')

lemma setItem_fields [simp]:
  "uuids (setItem st k it) = uuids st" "issued (setItem st k it) = issued st"
  "mutations (setItem st k it) = mutations st"
  by (simp_all add: setItem_def)

lemma getItem_mutations_update [simp]: "getItem (st\<lparr>mutations := m\<rparr>) = getItem st"
  by (rule ext) (simp add: getItem_def)

lemma getItem_issued_update [simp]: "getItem (st\<lparr>issued := m\<rparr>) = getItem st"
  by (rule ext) (simp add: getItem_def)

lemma getItem_activateItem:
  "getItem (activateItem st u) =
     (case getItem st u of None \<Rightarrow> getItem st | Some it \<Rightarrow> (getItem st)(u \<mapsto> it\<lparr>active := True\<rparr>))"
  by (simp add: activateItem_def Let_def getItem_setItem split: option.splits)

lemma activateItem_fields [simp]:
  "uuids (activateItem st u) = uuids st" "issued (activateItem st u) = issued st"
  "mutations (activateItem st u) = mutations st @ [ActivateItem u]"
  by (simp_all add: activateItem_def Let_def split: option.splits)

lemma getItem_setField:
  "getItem (setField st u f) =
     (case getItem st u of None \<Rightarrow> getItem st | Some it \<Rightarrow> (getItem st)(u \<mapsto> it\<lparr>ownerField := f\<rparr>))"
  by (simp add: setField_def Let_def getItem_setItem split: option.splits)

lemma setField_fields [simp]:
  "uuids (setField st u f) = uuids st" "issued (setField st u f) = issued st"
  "mutations (setField st u f) = mutations st @ [SetField u f]"
  by (simp_all add: setField_def Let_def split: option.splits)

lemma fst_duplicateItem [simp]: "fst (duplicateItem st u r) = uuids st (issued st)"
  by (simp add: duplicateItem_def Let_def)

lemma getItem_duplicateItem:
  "getItem (snd (duplicateItem st u r)) =
     (case getItem st u of None \<Rightarrow> getItem st
      | Some it \<Rightarrow> (getItem st)(uuids st (issued st) \<mapsto> it\<lparr>isNew := True\<rparr>))"
  by (simp add: duplicateItem_def Let_def getItem_setItem split: option.splits)

lemma duplicateItem_fields [simp]:
  "uuids (snd (duplicateItem st u r)) = uuids st"
  "issued (snd (duplicateItem st u r)) = Suc (issued st)"
  "mutations (snd (duplicateItem st u r)) = mutations st @ [DuplicateItem u (uuids st (issued st))]"
  by (simp_all add: duplicateItem_def Let_def split: option.splits)

lemma set_fst_deactivateUnusedItems:
  "set (fst (deactivateUnusedItems st cur f)) = {k. unusedItem st cur f k}"
proof -
  have "unusedItem st cur f k \<Longrightarrow> k \<in> fst ` set (items st)" for k
    using map_of_eq_None_iff[of "items st" k]
    by (auto simp: unusedItem_def getItem_def split: option.splits)
  then show ?thesis
    by (auto simp: deactivateUnusedItems_def Let_def)
qed

lemma map_of_map_flip:
  "map_of (map (\<lambda>(k, it). if P k then (k, g it) else (k, it)) xs) k
     = map_option (\<lambda>it. if P k then g it else it) (map_of xs k)"
  by (induction xs) auto

lemma getItem_deactivateUnusedItems:
  "getItem (snd (deactivateUnusedItems st cur f)) k =
     map_option (\<lambda>it. if unusedItem st cur f k then it\<lparr>active := False\<rparr> else it) (getItem st k)"
proof -
  have "set (filter (unusedItem st cur f) (remdups (map fst (items st)))) = {k. unusedItem st cur f k}"
    using set_fst_deactivateUnusedItems[of st cur f] by (simp add: deactivateUnusedItems_def Let_def)
  then show ?thesis
    by (simp add: deactivateUnusedItems_def Let_def getItem_def map_of_map_flip)
qed

lemma deactivateUnusedItems_fields [simp]:
  "uuids (snd (deactivateUnusedItems st cur f)) = uuids st"
  "issued (snd (deactivateUnusedItems st cur f)) = issued st"
  by (simp_all add: deactivateUnusedItems_def Let_def)

lemma deactivateUnusedItems_none:
  assumes "\<And>k. \<not> unusedItem st cur f k"
  shows "deactivateUnusedItems st cur f = ([], st)"
proof -
  have "filter (unusedItem st cur f) (remdups (map fst (items st))) = []"
    using assms by (simp add: filter_empty_conv)
  then show ?thesis
    by (simp add: deactivateUnusedItems_def Let_def)
qed

subsection \<open>One node of the snapshot\<close>

lemma updateNodeAttrs_eq:
  assumes "editor s = Some e" "p < length (doc e)"
  shows "updateNodeAttrs s nd p a =
           Inr (s\<lparr>heap := patchedHeap (heap s) (doc e ! p) nd a,
                  editor := Some (e\<lparr>doc := (doc e)[p := length (heap s)],
                                     dispatched := dispatched e @ [silentMarkup p a]\<rparr>)\<rparr>)"
  using assms
  by (simp add: updateNodeAttrs_def setNodeMarkup_def setMeta_def dispatch_def Let_def
      silentMarkup_def patchedHeap_def)

lemma updateNodeAttrs_Inr:
  assumes "updateNodeAttrs s nd p a = Inr r"
  shows "\<exists>e. editor s = Some e \<and> p < length (doc e)"
  using assms
  by (auto simp: updateNodeAttrs_def setNodeMarkup_def split: option.splits if_splits)

lemma patchedHeap_new:
  "attrs (patchedHeap h old nd a ! length h) = a"
  "typeName (patchedHeap h old nd a ! length h) = typeName (h ! old)"
  by (cases "nd = length h"; simp add: patchedHeap_def nth_append nth_list_update)+

lemma patchedHeap_other:
  assumes "b < length h" "b \<noteq> nd"
  shows "patchedHeap h old nd a ! b = h ! b"
  using assms by (simp add: patchedHeap_def nth_append)

lemma patchedHeap_typeName:
  assumes "b < length h"
  shows "typeName (patchedHeap h old nd a ! b) = typeName (h ! b)"
  using assms by (cases "b = nd") (simp_all add: patchedHeap_def nth_append)

lemma length_patchedHeap [simp]: "length (patchedHeap h old nd a) = Suc (length h)"
  by (simp add: patchedHeap_def)

lemma syncInsertedNode_skip:
  assumes "\<not> itemExists (m2aStore s) (attrs_id (attrs (heap s ! node nwp)))"
  shows "syncInsertedNode s memory nwp = Inr (s, memory)"
  using assms by (simp add: syncInsertedNode_def)

lemma syncInsertedNode_noop:
  assumes "getItem (m2aStore s) (attrs_id (attrs (heap s ! node nwp))) = Some it"
    and "active it" and "attrs_id (attrs (heap s ! node nwp)) \<notin> set memory"
    and "ownerField it = editorField s"
  shows "syncInsertedNode s memory nwp = Inr (s, memory @ [attrs_id (attrs (heap s ! node nwp))])"
  using assms
  by (simp add: syncInsertedNode_def itemExists_def itemIsActive_def
      itemFromDifferentEditor_def nodeIdUniqueInEditor_eq)

lemma syncInsertedNode_duplicate:
  assumes it: "getItem (m2aStore s) (attrs_id (attrs (heap s ! node nwp))) = Some it"
    and act: "active it"
    and dup: "attrs_id (attrs (heap s ! node nwp)) \<in> set memory \<or> ownerField it \<noteq> editorField s"
    and ed: "editor s = Some e" and p: "pos nwp < length (doc e)"
  shows "syncInsertedNode s memory nwp =
     (let nodeId = attrs_id (attrs (heap s ! node nwp));
          newId = uuids (m2aStore s) (issued (m2aStore s));
          st1 = snd (duplicateItem (m2aStore s) nodeId (m2aRelation s));
          st2 = (if ownerField it \<noteq> editorField s then setField st1 newId (editorField s) else st1);
          a = (attrs (heap s ! node nwp))\<lparr>attrs_id := newId\<rparr>
      in Inr (s\<lparr>m2aStore := st2,
               heap := patchedHeap (heap s) (doc e ! pos nwp) (node nwp) a,
               editor := Some (e\<lparr>doc := (doc e)[pos nwp := length (heap s)],
                                  dispatched := dispatched e @ [silentMarkup (pos nwp) a]\<rparr>),
               m2aRelation := create (m2aRelation s) (item it)\<rparr>,
              memory @ [newId]))"
proof -
  let ?u = "attrs_id (attrs (heap s ! node nwp))"
  let ?g = "uuids (m2aStore s) (issued (m2aStore s))"
  obtain st1 where d: "duplicateItem (m2aStore s) ?u (m2aRelation s) = (?g, st1)"
    by (metis fst_duplicateItem prod.collapse)
  have g1: "getItem st1 = (getItem (m2aStore s))(?g \<mapsto> it\<lparr>isNew := True\<rparr>)"
    using getItem_duplicateItem[of "m2aStore s" ?u "m2aRelation s"] d it by simp
  have ed1: "editor (s\<lparr>m2aStore := st1\<rparr>) = Some e" using ed by simp
  note U = updateNodeAttrs_eq[OF ed1 p]
  show ?thesis
  proof (cases "ownerField it \<noteq> editorField s")
    case True
    then show ?thesis
      using it act ed p d g1
      by (simp add: syncInsertedNode_def itemExists_def itemIsActive_def itemIsNew_def
          itemFromDifferentEditor_def nodeIdUniqueInEditor_eq refreshEditorNodeId_def
          U replaceLastItem_snoc getItem_setField Let_def)
  next
    case False
    then have "?u \<in> set memory" using dup by simp
    then show ?thesis
      using False it act ed p d g1
      by (simp add: syncInsertedNode_def itemExists_def itemIsActive_def itemIsNew_def
          itemFromDifferentEditor_def nodeIdUniqueInEditor_eq refreshEditorNodeId_def
          U replaceLastItem_snoc Let_def)
  qed
qed

lemma getItem_claimItem:
  assumes "getItem st u = Some it"
  shows "getItem (claimItem st u it f) = (getItem st)(u \<mapsto> it\<lparr>active := True, ownerField := f\<rparr>)"
proof (cases "ownerField it = f")
  case True
  then have f: "f = ownerField it" by simp
  show ?thesis unfolding f using assms by (simp add: claimItem_def getItem_activateItem)
next
  case False
  then show ?thesis using assms
    by (simp add: claimItem_def getItem_activateItem getItem_setField)
qed

lemma syncInsertedNode_create:
  assumes it: "getItem (m2aStore s) (attrs_id (attrs (heap s ! node nwp))) = Some it"
    and act: "\<not> active it" and new: "isNew it"
  shows "syncInsertedNode s memory nwp =
     (let nodeId = attrs_id (attrs (heap s ! node nwp))
      in Inr (s\<lparr>m2aStore := claimItem (m2aStore s) nodeId it (editorField s),
               m2aRelation := create (m2aRelation s) (item it)\<rparr>,
              memory @ [nodeId]))"
  using assms getItem_claimItem[OF it, of "editorField s"]
  by (simp add: syncInsertedNode_def itemExists_def itemIsActive_def itemIsNew_def
      itemFromDifferentEditor_def nodeIdUniqueInEditor_eq Let_def claimItem_def
      getItem_activateItem getItem_setField)

lemma syncInsertedNode_reactivate:
  assumes it: "getItem (m2aStore s) (attrs_id (attrs (heap s ! node nwp))) = Some it"
    and act: "\<not> active it" and new: "\<not> isNew it"
  shows "syncInsertedNode s memory nwp =
     (let nodeId = attrs_id (attrs (heap s ! node nwp));
          st3 = claimItem (m2aStore s) nodeId it (editorField s);
          rel1 = remove (m2aRelation s) (findDisplayItem (m2aRelation s) nodeId)
      in case edits it of
           None \<Rightarrow> Inr (s\<lparr>m2aStore := st3, m2aRelation := rel1\<rparr>, memory @ [nodeId])
         | Some e \<Rightarrow>
             (case findDisplayItem rel1 nodeId of
                None \<Rightarrow> Inr (s\<lparr>m2aStore := st3, m2aRelation := update rel1 (Some e)\<rparr>, memory @ [nodeId])
              | Some d \<Rightarrow>
                  (let merged = e(''$type'' := d ''$type'', ''$index'' := d ''$index'',
                                  ''$edits'' := d ''$edits'')
                   in Inr (s\<lparr>m2aStore := setItem st3 nodeId
                                   (it\<lparr>active := True, ownerField := editorField s, edits := Some merged\<rparr>),
                            m2aRelation := update rel1 (Some merged)\<rparr>,
                           memory @ [nodeId]))))"
proof -
  let ?u = "attrs_id (attrs (heap s ! node nwp))"
  let ?st3 = "claimItem (m2aStore s) ?u it (editorField s)"
  have g3: "getItem ?st3 ?u = Some (it\<lparr>active := True, ownerField := editorField s\<rparr>)"
    using getItem_claimItem[OF it, of "editorField s"] by simp
  have s3: "(if itemFromDifferentEditor (m2aStore s) ?u (editorField s)
             then s\<lparr>m2aStore := activateItem (m2aStore s) ?u\<rparr>
                   \<lparr>m2aStore := setField (m2aStore (s\<lparr>m2aStore := activateItem (m2aStore s) ?u\<rparr>)) ?u
                       (editorField (s\<lparr>m2aStore := activateItem (m2aStore s) ?u\<rparr>))\<rparr>
             else s\<lparr>m2aStore := activateItem (m2aStore s) ?u\<rparr>) = s\<lparr>m2aStore := ?st3\<rparr>"
    using it by (simp add: itemFromDifferentEditor_def claimItem_def)
  show ?thesis
    using it act new g3
    apply (simp add: syncInsertedNode_def itemExists_def itemIsActive_def
        nodeIdUniqueInEditor_eq Let_def s3 del: if_cancel)
    apply (simp add: itemIsNew_def reactivateRelatedItem_def mergeUpdatedValues_def Let_def
        split: option.splits)
    done
qed

lemmas example_defs = exampleState_def exampleItem_def relationBlock_def exampleUuids_def

subsection \<open>The duplicate case\<close>



subsection \<open>Reactivation\<close>





subsection \<open>Ownership after duplication\<close>

text \<open>
  C9: a node whose store item is active and owned by another editor field is
  duplicated, and \<open>setField\<close> is called with the identity of the duplicate; the item of
  the original identity is left as it was, with its owner and its active flag.
\<close>

theorem C9_setField_targets_duplicate:
  assumes "getItem (m2aStore s) (attrs_id (attrs (heap s ! node nwp))) = Some it"
    and "active it"
    and "ownerField it \<noteq> editorField s"
    and "editor s = Some e" and "pos nwp < length (doc e)"
    and "uuids (m2aStore s) (issued (m2aStore s)) \<noteq> attrs_id (attrs (heap s ! node nwp))"
  shows "\<exists>s'. syncInsertedNode s memory nwp =
                 Inr (s', memory @ [uuids (m2aStore s) (issued (m2aStore s))])
          \<and> mutations (m2aStore s') =
               mutations (m2aStore s) @
                 [DuplicateItem (attrs_id (attrs (heap s ! node nwp))) (uuids (m2aStore s) (issued (m2aStore s))),
                  SetField (uuids (m2aStore s) (issued (m2aStore s))) (editorField s)]
          \<and> map_option ownerField (getItem (m2aStore s') (uuids (m2aStore s) (issued (m2aStore s))))
               = Some (editorField s)
          \<and> getItem (m2aStore s') (attrs_id (attrs (heap s ! node nwp))) = Some it"
proof -
  have d: "attrs_id (attrs (heap s ! node nwp)) \<in> set memory \<or> ownerField it \<noteq> editorField s"
    using assms(3) by simp
  show ?thesis
    using assms(1,3,6)
    by (simp add: syncInsertedNode_duplicate[OF assms(1,2) d assms(4,5)] Let_def
        getItem_setField getItem_duplicateItem)
qed

theorem C9_setField_targets_duplicate_witness:
  "(let it = exampleItem True False ''F1'' None;
        s = exampleState [(''U1'', it)] Map.empty [relationBlock ''U1''] [0] (Some ''F2'');
        e = \<lparr>doc = [0], dispatched = []\<rparr>;
        nwp = \<lparr>node = 0, pos = 0\<rparr>
    in getItem (m2aStore s) (attrs_id (attrs (heap s ! node nwp))) = Some it
       \<and> active it \<and> ownerField it \<noteq> editorField s
       \<and> editor s = Some e \<and> pos nwp < length (doc e)
       \<and> uuids (m2aStore s) (issued (m2aStore s)) \<noteq> attrs_id (attrs (heap s ! node nwp))
       \<and> (\<exists>s'. syncInsertedNode s [] nwp = Inr (s', [''N''])
             \<and> mutations (m2aStore s') = [DuplicateItem ''U1'' ''N'', SetField ''N'' (Some ''F2'')]
             \<and> map_option ownerField (getItem (m2aStore s') ''N'') = Some (Some ''F2'')
             \<and> getItem (m2aStore s') ''U1'' = Some it))"
  using C9_setField_targets_duplicate[of
      "exampleState [(''U1'', exampleItem True False ''F1'' None)] Map.empty [relationBlock ''U1''] [0] (Some ''F2'')"
      "\<lparr>node = 0, pos = 0\<rparr>"
      "exampleItem True False ''F1'' None"
      "\<lparr>doc = [0], dispatched = []\<rparr>" "[]"]
  by (simp add: example_defs getItem_def Let_def)

subsection \<open>Orphaned nodes\<close>

lemma syncInsertedNodesLoop_orphans:
  assumes "\<forall>nwp \<in> set editorNodes. \<not> itemExists (m2aStore s) (attrs_id (attrs (heap s ! node nwp)))"
  shows "syncInsertedNodesLoop s memory editorNodes = Inr (s, memory)"
  using assms by (induction editorNodes) (simp_all add: syncInsertedNode_skip)

lemma syncRemovedNodes_none:
  assumes "\<And>k. \<not> unusedItem (m2aStore s) (map (\<lambda>nwp. attrs_id (attrs (heap s ! node nwp))) editorNodes) (editorField s) k"
  shows "syncRemovedNodes s editorNodes = s"
  using deactivateUnusedItems_none[of "m2aStore s" _ "editorField s", OF assms]
  by (simp add: syncRemovedNodes_def removeRelatedItems_def)

text \<open>
  C7: a node whose identity has no item in the store is skipped, with no store
  mutation, no call to the relation collection and no error; when no item is active for
  this field, a pass over a document whose relation blocks are all such nodes returns
  the state it started from.
\<close>

theorem C7_orphan_skip:
  "(\<not> itemExists (m2aStore s) (attrs_id (attrs (heap s ! node nwp)))
      \<longrightarrow> syncInsertedNode s memory nwp = Inr (s, memory))
   \<and> (editor s = Some e
       \<and> (\<forall>p < length (doc e). typeName (heap s ! (doc e ! p)) = ''relation-block''
              \<longrightarrow> \<not> itemExists (m2aStore s) (attrs_id (attrs (heap s ! (doc e ! p)))))
       \<and> (\<forall>k it. getItem (m2aStore s) k = Some it \<longrightarrow> \<not> (active it \<and> ownerField it = editorField s))
      \<longrightarrow> syncRelationNodes s = Inr s)"
proof (intro conjI impI)
  assume "\<not> itemExists (m2aStore s) (attrs_id (attrs (heap s ! node nwp)))"
  then show "syncInsertedNode s memory nwp = Inr (s, memory)" by (rule syncInsertedNode_skip)
next
  assume a: "editor s = Some e
       \<and> (\<forall>p < length (doc e). typeName (heap s ! (doc e ! p)) = ''relation-block''
              \<longrightarrow> \<not> itemExists (m2aStore s) (attrs_id (attrs (heap s ! (doc e ! p)))))
       \<and> (\<forall>k it. getItem (m2aStore s) k = Some it \<longrightarrow> \<not> (active it \<and> ownerField it = editorField s))"
  define ns where "ns = map (\<lambda>p. \<lparr>node = doc e ! p, pos = p\<rparr>)
                 (filter (\<lambda>p. typeName (heap s ! (doc e ! p)) = ''relation-block'') [0..<length (doc e)])"
  have g: "getExistingEditorNodes s = Inr ns"
    using a by (simp add: getExistingEditorNodes_def ns_def)
  have r: "syncRemovedNodes s ns = s"
    using a by (intro syncRemovedNodes_none) (auto simp: unusedItem_def split: option.splits)
  have "\<forall>nwp \<in> set ns. \<not> itemExists (m2aStore s) (attrs_id (attrs (heap s ! node nwp)))"
    using a by (auto simp: ns_def)
  then have "syncInsertedNodesLoop s nodeIdMemory ns = Inr (s, nodeIdMemory)"
    by (rule syncInsertedNodesLoop_orphans)
  then show "syncRelationNodes s = Inr s"
    by (simp add: syncRelationNodes_def g r syncInsertedNodes_def)
qed

theorem C7_orphan_skip_witness:
  "(let s = exampleState [] Map.empty [relationBlock ''U1''] [0] (Some ''F'');
        e = \<lparr>doc = [0], dispatched = []\<rparr>;
        nwp = \<lparr>node = 0, pos = 0\<rparr>
    in \<not> itemExists (m2aStore s) (attrs_id (attrs (heap s ! node nwp)))
       \<and> syncInsertedNode s [] nwp = Inr (s, [])
       \<and> editor s = Some e
       \<and> items (m2aStore s) = []
       \<and> syncRelationNodes s = Inr s)"
  using C7_orphan_skip[of "exampleState [] Map.empty [relationBlock ''U1''] [0] (Some ''F'')"
      "\<lparr>node = 0, pos = 0\<rparr>" "[]"
      "\<lparr>doc = [0], dispatched = []\<rparr>"]
  by (simp add: example_defs getItem_def itemExists_def Let_def)

subsection \<open>Removal reconciliation\<close>

lemma removeRelatedItemsLoop_append:
  "removeRelatedItemsLoop rel (xs @ ys) = removeRelatedItemsLoop (removeRelatedItemsLoop rel xs) ys"
  by (induction xs arbitrary: rel) (simp_all split: option.splits)

lemma removeRelatedItemsLoop_calls:
  "\<exists>ds. calls (removeRelatedItemsLoop rel ids) = calls rel @ map DeleteItem ds
        \<and> length ds \<le> length ids"
proof (induction ids arbitrary: rel)
  case Nil
  then show ?case by simp
next
  case (Cons u us)
  show ?case
  proof (cases "findDisplayItem rel u")
    case None
    then show ?thesis using Cons[of rel] by auto
  next
    case (Some d)
    obtain ds where "calls (removeRelatedItemsLoop (deleteItem rel d) us)
        = calls (deleteItem rel d) @ map DeleteItem ds" "length ds \<le> length us"
      using Cons[of "deleteItem rel d"] by blast
    then have "calls (removeRelatedItemsLoop rel (u # us)) = calls rel @ map DeleteItem (d # ds)
        \<and> length (d # ds) \<le> length (u # us)"
      using Some by (simp add: deleteItem_def)
    then show ?thesis by blast
  qed
qed

lemma removeRelatedItemsLoop_static:
  assumes "\<forall>cs. displayItems rel cs = disp"
  shows "calls (removeRelatedItemsLoop rel ids) = calls rel @ map DeleteItem (List.map_filter disp ids)"
  using assms
proof (induction ids arbitrary: rel)
  case Nil
  then show ?case by simp
next
  case (Cons u us)
  have f: "findDisplayItem rel u = disp u"
    using Cons.prems by (simp add: findDisplayItem_def)
  show ?case
  proof (cases "disp u")
    case None
    then show ?thesis using f Cons by simp
  next
    case (Some d)
    have "\<forall>cs. displayItems (deleteItem rel d) cs = disp"
      using Cons.prems by (simp add: deleteItem_def)
    from Cons.IH[OF this] show ?thesis
      using f Some by (simp add: deleteItem_def)
  qed
qed

text \<open>
  C5: removal reconciliation hands the identities returned by \<open>deactivateUnusedItems\<close>
  to the loop over the relation collection. For each identity, at its turn, the display
  item is looked up: when found, \<open>deleteItem\<close> is called with it, otherwise the identity
  is skipped. Only \<open>deleteItem\<close> calls are made, at most one per identity, and none for
  the empty list. When the lookups do not depend on the calls made, the calls are the
  \<open>deleteItem\<close> calls for the display items found, in the order of the identities.
\<close>

theorem C5_removal_reconciliation:
  "syncRemovedNodes s editorNodes =
     (let (ids, st) = deactivateUnusedItems (m2aStore s)
                        (map (\<lambda>nwp. attrs_id (attrs (heap s ! node nwp))) editorNodes) (editorField s)
      in s\<lparr>m2aStore := st, m2aRelation := removeRelatedItemsLoop (m2aRelation s) ids\<rparr>)
   \<and> removeRelatedItemsLoop rel [] = rel
   \<and> removeRelatedItemsLoop rel (pre @ u # post) =
       (let rel1 = removeRelatedItemsLoop rel pre
        in removeRelatedItemsLoop
             (case findDisplayItem rel1 u of None \<Rightarrow> rel1 | Some d \<Rightarrow> deleteItem rel1 d) post)
   \<and> (\<exists>ds. calls (removeRelatedItemsLoop rel nodeIds) = calls rel @ map DeleteItem ds
          \<and> length ds \<le> length nodeIds)
   \<and> ((\<forall>cs. displayItems rel cs = disp) \<longrightarrow>
        calls (removeRelatedItemsLoop rel nodeIds)
          = calls rel @ map DeleteItem (List.map_filter disp nodeIds))"
proof (intro conjI impI)
  show "syncRemovedNodes s editorNodes =
     (let (ids, st) = deactivateUnusedItems (m2aStore s)
                        (map (\<lambda>nwp. attrs_id (attrs (heap s ! node nwp))) editorNodes) (editorField s)
      in s\<lparr>m2aStore := st, m2aRelation := removeRelatedItemsLoop (m2aRelation s) ids\<rparr>)"
    by (cases "fst (deactivateUnusedItems (m2aStore s)
                        (map (\<lambda>nwp. attrs_id (attrs (heap s ! node nwp))) editorNodes) (editorField s))")
       (simp_all add: syncRemovedNodes_def removeRelatedItems_def Let_def split: prod.splits)
  show "removeRelatedItemsLoop rel [] = rel" by simp
  show "removeRelatedItemsLoop rel (pre @ u # post) =
       (let rel1 = removeRelatedItemsLoop rel pre
        in removeRelatedItemsLoop
             (case findDisplayItem rel1 u of None \<Rightarrow> rel1 | Some d \<Rightarrow> deleteItem rel1 d) post)"
    by (simp add: removeRelatedItemsLoop_append Let_def split: option.splits)
  show "\<exists>ds. calls (removeRelatedItemsLoop rel nodeIds) = calls rel @ map DeleteItem ds
          \<and> length ds \<le> length nodeIds"
    by (rule removeRelatedItemsLoop_calls)
  assume "\<forall>cs. displayItems rel cs = disp"
  then show "calls (removeRelatedItemsLoop rel nodeIds)
          = calls rel @ map DeleteItem (List.map_filter disp nodeIds)"
    by (rule removeRelatedItemsLoop_static)
qed

theorem C5_removal_reconciliation_witness:
  "(let it = exampleItem True False ''F'' None;
        d = [''$index'' \<mapsto> Num 0];
        s = exampleState [(''U1'', it), (''U2'', it)] [''U2'' \<mapsto> d] [] [] (Some ''F'');
        rel = m2aRelation s
    in (\<forall>cs. displayItems rel cs = [''U2'' \<mapsto> d])
       \<and> calls (removeRelatedItemsLoop rel [''U1'', ''U2'']) = [DeleteItem d]
       \<and> fst (deactivateUnusedItems (m2aStore s) [] (editorField s)) = [''U1'', ''U2'']
       \<and> calls (m2aRelation (syncRemovedNodes s [])) = [DeleteItem d])"
  using C5_removal_reconciliation[of
      "exampleState [(''U1'', exampleItem True False ''F'' None), (''U2'', exampleItem True False ''F'' None)]
         [''U2'' \<mapsto> [''$index'' \<mapsto> Num 0]] [] [] (Some ''F'')" "[]"
      "m2aRelation (exampleState [(''U1'', exampleItem True False ''F'' None), (''U2'', exampleItem True False ''F'' None)]
         [''U2'' \<mapsto> [''$index'' \<mapsto> Num 0]] [] [] (Some ''F''))"
      "[]" "''U1''" "[''U2'']" "[''U1'', ''U2'']" "[''U2'' \<mapsto> [''$index'' \<mapsto> Num 0]]"]
  by (simp add: example_defs Let_def deactivateUnusedItems_def unusedItem_def
      getItem_def findDisplayItem_def deleteItem_def)

subsection \<open>A missing display item at reactivation\<close>

text \<open>
  C6: the store holds an inactive, persisted item \<open>U1\<close>, the document holds one node
  with that identity, and the relation collection has no display item for it. The
  pass hands the failed lookup to \<open>remove\<close>: the collection is called with
  \<^verbatim>\<open>undefined\<close>.
\<close>

theorem C6_remove_called_with_undefined:
  "(let s = exampleState [(''U1'', exampleItem False False ''F'' None)] Map.empty [relationBlock ''U1''] [0] (Some ''F'')
    in findDisplayItem (m2aRelation s) ''U1'' = None
       \<and> (\<exists>s'. syncRelationNodes s = Inr s' \<and> calls (m2aRelation s') = [Remove None]))"
  by (simp add: example_defs Let_def syncRelationNodes_def getExistingEditorNodes_def
      syncRemovedNodes_def deactivateUnusedItems_def unusedItem_def getItem_def
      removeRelatedItems_def syncInsertedNodes_def nodeIdMemory_def
      syncInsertedNode_reactivate claimItem_def findDisplayItem_def remove_def)

subsection \<open>What one node does to the store, the memory and the document\<close>

lemma syncInsertedNode_keep_summary:
  assumes it: "getItem (m2aStore s) (attrs_id (attrs (heap s ! node nwp))) = Some it"
    and nd: "\<not> (active it \<and> (attrs_id (attrs (heap s ! node nwp)) \<in> set memory \<or> ownerField it \<noteq> editorField s))"
    and r: "syncInsertedNode s memory nwp = Inr (s', memory')"
  shows "memory' = memory @ [attrs_id (attrs (heap s ! node nwp))] \<and> editor s' = editor s
         \<and> heap s' = heap s
         \<and> editorField s' = editorField s
         \<and> uuids (m2aStore s') = uuids (m2aStore s) \<and> issued (m2aStore s') = issued (m2aStore s)
         \<and> (\<exists>it'. getItem (m2aStore s') = (getItem (m2aStore s))(attrs_id (attrs (heap s ! node nwp)) \<mapsto> it')
                  \<and> active it' \<and> ownerField it' = editorField s)"
proof (cases "active it")
  case True
  then have u: "attrs_id (attrs (heap s ! node nwp)) \<notin> set memory" and o: "ownerField it = editorField s"
    using nd by auto
  have "(getItem (m2aStore s))(attrs_id (attrs (heap s ! node nwp)) \<mapsto> it) = getItem (m2aStore s)"
    using it by (simp add: fun_upd_idem)
  then have "\<exists>it'. getItem (m2aStore s) = (getItem (m2aStore s))(attrs_id (attrs (heap s ! node nwp)) \<mapsto> it')
                  \<and> active it' \<and> ownerField it' = editorField s"
    using True o by metis
  moreover have "syncInsertedNode s memory nwp
        = Inr (s, memory @ [attrs_id (attrs (heap s ! node nwp))])"
    by (rule syncInsertedNode_noop[OF it True u o])
  then have "s' = s \<and> memory' = memory @ [attrs_id (attrs (heap s ! node nwp))]"
    unfolding r by simp
  ultimately show ?thesis by simp
next
  case False
  let ?u = "attrs_id (attrs (heap s ! node nwp))"
  let ?st3 = "claimItem (m2aStore s) ?u it (editorField s)"
  let ?it3 = "it\<lparr>active := True, ownerField := editorField s\<rparr>"
  have g3: "getItem ?st3 = (getItem (m2aStore s))(?u \<mapsto> ?it3)"
    by (rule getItem_claimItem[OF it])
  have f3: "uuids ?st3 = uuids (m2aStore s)" "issued ?st3 = issued (m2aStore s)"
    by (simp_all add: claimItem_def)
  show ?thesis
  proof (cases "isNew it")
    case True
    show ?thesis
      using r g3 f3 by (auto simp: syncInsertedNode_create[OF it False True] Let_def)
  next
    case new: False
    note R = syncInsertedNode_reactivate[OF it False new, of memory]
    show ?thesis
    proof (cases "edits it")
      case None
      then show ?thesis using r g3 f3 by (auto simp: R Let_def)
    next
      case (Some e)
      show ?thesis
      proof (cases "findDisplayItem (remove (m2aRelation s) (findDisplayItem (m2aRelation s) ?u)) ?u")
        case None
        then show ?thesis using r g3 f3 Some by (auto simp: R Let_def)
      next
        case (Some d)
        then show ?thesis using r g3 f3 \<open>edits it = Some e\<close>
          by (auto simp: R Let_def getItem_setItem)
      qed
    qed
  qed
qed

lemma syncInsertedNode_dup_summary:
  assumes it: "getItem (m2aStore s) (attrs_id (attrs (heap s ! node nwp))) = Some it"
    and act: "active it"
    and dup: "attrs_id (attrs (heap s ! node nwp)) \<in> set memory \<or> ownerField it \<noteq> editorField s"
    and ed: "editor s = Some e" and p: "pos nwp < length (doc e)"
    and r: "syncInsertedNode s memory nwp = Inr (s', memory')"
  shows "memory' = memory @ [uuids (m2aStore s) (issued (m2aStore s))]
         \<and> editorField s' = editorField s
         \<and> uuids (m2aStore s') = uuids (m2aStore s)
         \<and> issued (m2aStore s') = Suc (issued (m2aStore s))
         \<and> (\<exists>e'. editor s' = Some e' \<and> doc e' = (doc e)[pos nwp := length (heap s)])
         \<and> heap s' = patchedHeap (heap s) (doc e ! pos nwp) (node nwp)
               ((attrs (heap s ! node nwp))\<lparr>attrs_id := uuids (m2aStore s) (issued (m2aStore s))\<rparr>)
         \<and> (\<exists>it'. getItem (m2aStore s') =
                     (getItem (m2aStore s))(uuids (m2aStore s) (issued (m2aStore s)) \<mapsto> it')
                  \<and> active it' \<and> ownerField it' = editorField s)"
proof -
  let ?u = "attrs_id (attrs (heap s ! node nwp))"
  let ?g = "uuids (m2aStore s) (issued (m2aStore s))"
  have g1: "getItem (snd (duplicateItem (m2aStore s) ?u (m2aRelation s)))
            = (getItem (m2aStore s))(?g \<mapsto> it\<lparr>isNew := True\<rparr>)"
    using it by (simp add: getItem_duplicateItem)
  show ?thesis
  proof (cases "ownerField it = editorField s")
    case True
    then show ?thesis
      using r g1 act by (auto simp: syncInsertedNode_duplicate[OF it act dup ed p] Let_def)
  next
    case False
    then show ?thesis
      using r g1 act
      by (auto simp: syncInsertedNode_duplicate[OF it act dup ed p] Let_def getItem_setField)
  qed
qed

subsection \<open>The invariant of the insertion loop\<close>

lemma passInvE:
  assumes "passInv tn s memory dps todo"
  obtains e where "editor s = Some e"
    "map (\<lambda>a. typeName (heap s ! a)) (doc e) = tn"
    "\<forall>a \<in> set (doc e). a < length (heap s)"
    "distinct (map (\<lambda>p. doc e ! p) (dps @ map pos todo))"
    "\<forall>p \<in> set (dps @ map pos todo). p < length (doc e)"
    "\<forall>n \<in> set todo. doc e ! pos n = node n"
    "memory = filter (itemExists (m2aStore s)) (map (idAt (heap s) e) dps)"
    "distinct memory"
    "\<forall>u \<in> set memory. ownedActive s u"
    "\<forall>k. ownedActive s k \<longrightarrow> k \<in> idAt (heap s) e ` set (dps @ map pos todo)"
    "uuidsUnused s (idAt (heap s) e ` set (dps @ map pos todo))"
  using assms unfolding passInv_def by (elim exE conjE) (rule that, assumption+)

lemma passInvI:
  assumes "editor s = Some e"
    "map (\<lambda>a. typeName (heap s ! a)) (doc e) = tn"
    "\<forall>a \<in> set (doc e). a < length (heap s)"
    "distinct (map (\<lambda>p. doc e ! p) (dps @ map pos todo))"
    "\<forall>p \<in> set (dps @ map pos todo). p < length (doc e)"
    "\<forall>n \<in> set todo. doc e ! pos n = node n"
    "memory = filter (itemExists (m2aStore s)) (map (idAt (heap s) e) dps)"
    "distinct memory"
    "\<forall>u \<in> set memory. ownedActive s u"
    "\<forall>k. ownedActive s k \<longrightarrow> k \<in> idAt (heap s) e ` set (dps @ map pos todo)"
    "uuidsUnused s (idAt (heap s) e ` set (dps @ map pos todo))"
  shows "passInv tn s memory dps todo"
  unfolding passInv_def using assms by (intro exI[of _ e] conjI)

lemma passInv_skip:
  assumes inv: "passInv tn s memory dps (nwp # todo)"
    and ne: "getItem (m2aStore s) (attrs_id (attrs (heap s ! node nwp))) = None"
  shows "passInv tn s memory (dps @ [pos nwp]) todo"
proof -
  from inv obtain e where e: "editor s = Some e"
    and tn: "map (\<lambda>a. typeName (heap s ! a)) (doc e) = tn"
    and va: "\<forall>a \<in> set (doc e). a < length (heap s)"
    and da: "distinct (map (\<lambda>p. doc e ! p) (dps @ map pos (nwp # todo)))"
    and l: "\<forall>p \<in> set (dps @ map pos (nwp # todo)). p < length (doc e)"
    and i: "\<forall>n \<in> set (nwp # todo). doc e ! pos n = node n"
    and m: "memory = filter (itemExists (m2aStore s)) (map (idAt (heap s) e) dps)"
    and dm: "distinct memory"
    and oa: "\<forall>u \<in> set memory. ownedActive s u"
    and cov: "\<forall>k. ownedActive s k \<longrightarrow> k \<in> idAt (heap s) e ` set (dps @ map pos (nwp # todo))"
    and fr: "uuidsUnused s (idAt (heap s) e ` set (dps @ map pos (nwp # todo)))"
    by (rule passInvE)
  have ap: "(dps @ [pos nwp]) @ map pos todo = dps @ map pos (nwp # todo)" by simp
  have iu: "idAt (heap s) e (pos nwp) = attrs_id (attrs (heap s ! node nwp))"
    using i by (simp add: idAt_def)
  have m': "memory = filter (itemExists (m2aStore s)) (map (idAt (heap s) e) (dps @ [pos nwp]))"
    using m ne by (simp add: iu itemExists_def)
  have i': "\<forall>n \<in> set todo. doc e ! pos n = node n" using i by simp
  show ?thesis
    by (rule passInvI[OF e tn va _ _ i' m' dm oa]; unfold ap; fact)
qed

lemma passInv_keep:
  assumes inv: "passInv tn s memory dps (nwp # todo)"
    and it: "getItem (m2aStore s) (attrs_id (attrs (heap s ! node nwp))) = Some it"
    and nd: "\<not> (active it \<and> (attrs_id (attrs (heap s ! node nwp)) \<in> set memory
                              \<or> ownerField it \<noteq> editorField s))"
    and r: "syncInsertedNode s memory nwp = Inr (s', memory')"
  shows "passInv tn s' memory' (dps @ [pos nwp]) todo \<and> editorField s' = editorField s"
proof -
  let ?u = "attrs_id (attrs (heap s ! node nwp))"
  let ?P = "set (dps @ map pos (nwp # todo))"
  from inv obtain e where e: "editor s = Some e"
    and tn: "map (\<lambda>a. typeName (heap s ! a)) (doc e) = tn"
    and va: "\<forall>a \<in> set (doc e). a < length (heap s)"
    and da: "distinct (map (\<lambda>p. doc e ! p) (dps @ map pos (nwp # todo)))"
    and l: "\<forall>p \<in> ?P. p < length (doc e)"
    and i: "\<forall>n \<in> set (nwp # todo). doc e ! pos n = node n"
    and m: "memory = filter (itemExists (m2aStore s)) (map (idAt (heap s) e) dps)"
    and dm: "distinct memory"
    and oa: "\<forall>u \<in> set memory. ownedActive s u"
    and cov: "\<forall>k. ownedActive s k \<longrightarrow> k \<in> idAt (heap s) e ` ?P"
    and fr: "uuidsUnused s (idAt (heap s) e ` ?P)"
    by (rule passInvE)
  from syncInsertedNode_keep_summary[OF it nd r] obtain it' where
    m': "memory' = memory @ [?u]" and e': "editor s' = editor s"
    and h': "heap s' = heap s"
    and f': "editorField s' = editorField s"
    and uu: "uuids (m2aStore s') = uuids (m2aStore s)" "issued (m2aStore s') = issued (m2aStore s)"
    and g': "getItem (m2aStore s') = (getItem (m2aStore s))(?u \<mapsto> it')"
    and a': "active it'" "ownerField it' = editorField s"
    by blast
  have ex: "itemExists (m2aStore s') k = itemExists (m2aStore s) k" for k
    using it by (simp add: itemExists_def g')
  have exf: "itemExists (m2aStore s') = itemExists (m2aStore s)"
    using ex by (rule ext)
  have oa_u: "ownedActive s' ?u"
    using a' by (simp add: ownedActive_def g' f')
  have oa_k: "k \<noteq> ?u \<Longrightarrow> ownedActive s' k = ownedActive s k" for k
    by (simp add: ownedActive_def g' f')
  have unm: "?u \<notin> set memory"
  proof
    assume "?u \<in> set memory"
    then have "ownedActive s ?u" using oa by blast
    then have "active it" using it by (simp add: ownedActive_def)
    then show False using nd \<open>?u \<in> set memory\<close> by simp
  qed
  have ap: "(dps @ [pos nwp]) @ map pos todo = dps @ map pos (nwp # todo)" by simp
  have iu: "idAt (heap s) e (pos nwp) = ?u" using i by (simp add: idAt_def)
  have "itemExists (m2aStore s) ?u" using it by (simp add: itemExists_def)
  then have 1: "memory' = filter (itemExists (m2aStore s')) (map (idAt (heap s') e) (dps @ [pos nwp]))"
    using m iu by (simp add: m' exf h')
  have 2: "distinct memory'" using dm unm by (simp add: m')
  have 3: "\<forall>u \<in> set memory'. ownedActive s' u"
  proof
    fix k assume "k \<in> set memory'"
    then show "ownedActive s' k"
      using oa oa_u oa_k[of k] by (cases "k = ?u") (auto simp: m')
  qed
  have 4: "\<forall>k. ownedActive s' k \<longrightarrow> k \<in> idAt (heap s') e ` ?P"
  proof (intro allI impI)
    fix k assume k: "ownedActive s' k"
    show "k \<in> idAt (heap s') e ` ?P"
    proof (cases "k = ?u")
      case True
      have "pos nwp \<in> ?P" by simp
      then show ?thesis unfolding h' True iu[symmetric] by (rule imageI)
    next
      case False
      then show ?thesis using k oa_k cov by (simp add: h')
    qed
  qed
  have 5: "uuidsUnused s' (idAt (heap s') e ` ?P)"
    using fr by (simp add: uuidsUnused_def uu ex h')
  have e1: "editor s' = Some e" using e e' by simp
  have tn1: "map (\<lambda>a. typeName (heap s' ! a)) (doc e) = tn" using tn by (simp add: h')
  have va1: "\<forall>a \<in> set (doc e). a < length (heap s')" using va by (simp add: h')
  have i1: "\<forall>n \<in> set todo. doc e ! pos n = node n" using i by simp
  have "passInv tn s' memory' (dps @ [pos nwp]) todo"
    by (rule passInvI[OF e1 tn1 va1 _ _ i1 1 2 3]; unfold ap; fact)
  then show ?thesis using f' by simp
qed

lemma passInv_dup:
  assumes inv: "passInv tn s memory dps (nwp # todo)"
    and it: "getItem (m2aStore s) (attrs_id (attrs (heap s ! node nwp))) = Some it"
    and act: "active it"
    and dup: "attrs_id (attrs (heap s ! node nwp)) \<in> set memory \<or> ownerField it \<noteq> editorField s"
    and r: "syncInsertedNode s memory nwp = Inr (s', memory')"
  shows "passInv tn s' memory' (dps @ [pos nwp]) todo \<and> editorField s' = editorField s"
proof -
  let ?u = "attrs_id (attrs (heap s ! node nwp))"
  let ?g = "uuids (m2aStore s) (issued (m2aStore s))"
  let ?a = "(attrs (heap s ! node nwp))\<lparr>attrs_id := ?g\<rparr>"
  let ?L = "dps @ map pos (nwp # todo)"
  let ?P = "set ?L"
  let ?h = "heap s"
  from inv obtain e where e: "editor s = Some e"
    and tn: "map (\<lambda>a. typeName (?h ! a)) (doc e) = tn"
    and va: "\<forall>a \<in> set (doc e). a < length ?h"
    and da: "distinct (map (\<lambda>p. doc e ! p) ?L)"
    and l: "\<forall>p \<in> ?P. p < length (doc e)"
    and i: "\<forall>n \<in> set (nwp # todo). doc e ! pos n = node n"
    and m: "memory = filter (itemExists (m2aStore s)) (map (idAt ?h e) dps)"
    and dm: "distinct memory"
    and oa: "\<forall>u \<in> set memory. ownedActive s u"
    and cov: "\<forall>k. ownedActive s k \<longrightarrow> k \<in> idAt ?h e ` ?P"
    and fr: "uuidsUnused s (idAt ?h e ` ?P)"
    by (rule passInvE)
  have p: "pos nwp < length (doc e)" using l by simp
  have x: "doc e ! pos nwp = node nwp" using i by simp
  from syncInsertedNode_dup_summary[OF it act dup e p r] obtain e' it' where
    m': "memory' = memory @ [?g]"
    and f': "editorField s' = editorField s"
    and uu: "uuids (m2aStore s') = uuids (m2aStore s)" "issued (m2aStore s') = Suc (issued (m2aStore s))"
    and e': "editor s' = Some e'"
    and d': "doc e' = (doc e)[pos nwp := length ?h]"
    and h': "heap s' = patchedHeap ?h (doc e ! pos nwp) (node nwp) ?a"
    and g': "getItem (m2aStore s') = (getItem (m2aStore s))(?g \<mapsto> it')"
    and a': "active it'" "ownerField it' = editorField s"
    by blast
  have iu: "idAt ?h e (pos nwp) = ?u" using x by (simp add: idAt_def)
  have gne: "\<not> itemExists (m2aStore s) ?g" and gnid: "?g \<notin> idAt ?h e ` ?P"
    using fr by (simp_all add: uuidsUnused_def)
  have ex: "itemExists (m2aStore s') k = (k = ?g \<or> itemExists (m2aStore s) k)" for k
    by (simp add: itemExists_def g')
  have oa_g: "ownedActive s' ?g"
    using a' by (simp add: ownedActive_def g' f')
  have oa_k: "k \<noteq> ?g \<Longrightarrow> ownedActive s' k = ownedActive s k" for k
    by (simp add: ownedActive_def g' f')
  have gnm: "?g \<notin> set memory"
    using gne m by auto
  have dL: "distinct ?L" and inj: "inj_on (\<lambda>p. doc e ! p) ?P"
    using da by (simp_all only: distinct_map)
  have pP: "pos nwp \<in> ?P" by simp
  have valid: "doc e ! q < length ?h" if "q \<in> ?P" for q
    using va l that by (metis nth_mem)
  have other: "doc e ! q \<noteq> node nwp" if "q \<in> ?P" "q \<noteq> pos nwp" for q
  proof
    assume "doc e ! q = node nwp"
    then have "doc e ! q = doc e ! pos nwp" using x by simp
    then have "q = pos nwp" by (rule inj_onD[OF inj _ that(1) pP])
    then show False using that(2) by simp
  qed
  have dq: "doc e' ! q = doc e ! q" if "q \<noteq> pos nwp" for q
    using that by (simp add: d')
  have dp: "doc e' ! pos nwp = length ?h"
    using p by (simp add: d')
  have idp: "idAt (heap s') e' (pos nwp) = ?g"
    by (simp add: idAt_def dp h' patchedHeap_new)
  have idq: "idAt (heap s') e' q = idAt ?h e q" if "q \<in> ?P" "q \<noteq> pos nwp" for q
    using that valid[of q] other[of q] by (simp add: idAt_def dq h' patchedHeap_other)
  have pnd: "pos nwp \<notin> set dps" and pnt: "pos nwp \<notin> pos ` set todo"
    using dL by auto
  have ap: "(dps @ [pos nwp]) @ map pos todo = ?L" by simp
  have len': "length (doc e') = length (doc e)" by (simp add: d')
  have tn': "map (\<lambda>a. typeName (heap s' ! a)) (doc e') = tn"
  proof -
    have "map (\<lambda>a. typeName (heap s' ! a)) (doc e') = map (\<lambda>a. typeName (?h ! a)) (doc e)"
    proof (rule nth_equalityI)
      show "length (map (\<lambda>a. typeName (heap s' ! a)) (doc e'))
            = length (map (\<lambda>a. typeName (?h ! a)) (doc e))"
        by (simp add: len')
    next
      fix k assume "k < length (map (\<lambda>a. typeName (heap s' ! a)) (doc e'))"
      then have k: "k < length (doc e)" by (simp add: len')
      then have kv: "doc e ! k < length ?h" using va by simp
      show "map (\<lambda>a. typeName (heap s' ! a)) (doc e') ! k = map (\<lambda>a. typeName (?h ! a)) (doc e) ! k"
      proof (cases "k = pos nwp")
        case True
        then show ?thesis using k by (simp add: len' dp h' patchedHeap_new)
      next
        case False
        then show ?thesis using k kv by (simp add: len' dq h' patchedHeap_typeName)
      qed
    qed
    then show ?thesis using tn by simp
  qed
  have va': "\<forall>a \<in> set (doc e'). a < length (heap s')"
  proof
    fix a assume "a \<in> set (doc e')"
    then have "a \<in> insert (length ?h) (set (doc e))"
      unfolding d' using set_update_subset_insert by fastforce
    then show "a < length (heap s')" using va by (auto simp: h')
  qed
  have inj': "inj_on (\<lambda>p. doc e' ! p) ?P"
  proof (rule inj_onI)
    fix q1 q2 assume q: "q1 \<in> ?P" "q2 \<in> ?P" and eq: "doc e' ! q1 = doc e' ! q2"
    show "q1 = q2"
    proof (cases "q1 = pos nwp")
      case True
      show ?thesis
      proof (rule ccontr)
        assume "q1 \<noteq> q2"
        then have "q2 \<noteq> pos nwp" using True by simp
        then have "doc e' ! q2 < length ?h" using dq[of q2] valid[OF q(2)] by simp
        then show False using eq True dp by simp
      qed
    next
      case False
      show ?thesis
      proof (cases "q2 = pos nwp")
        case True
        have "doc e' ! q1 < length ?h" using dq[OF False] valid[OF q(1)] by simp
        then show ?thesis using eq True dp by simp
      next
        case q2: False
        then have "doc e ! q1 = doc e ! q2" using eq dq[OF False] dq[OF q2] by simp
        then show ?thesis by (rule inj_onD[OF inj _ q])
      qed
    qed
  qed
  have da': "distinct (map (\<lambda>p. doc e' ! p) ?L)"
    using dL inj' by (simp only: distinct_map)
  have l': "\<forall>p \<in> ?P. p < length (doc e')" using l by (simp add: len')
  have 0: "\<forall>n \<in> set todo. doc e' ! pos n = node n"
  proof
    fix n assume n: "n \<in> set todo"
    then have "pos n \<noteq> pos nwp" using pnt by (metis imageI)
    then have "doc e' ! pos n = doc e ! pos n" by (rule dq)
    then show "doc e' ! pos n = node n" using i n by simp
  qed
  have mapd: "map (idAt (heap s') e') dps = map (idAt ?h e) dps"
  proof (rule map_cong[OF refl])
    fix q assume q: "q \<in> set dps"
    then have "q \<noteq> pos nwp" using pnd by blast
    moreover have "q \<in> ?P" using q by simp
    ultimately show "idAt (heap s') e' q = idAt ?h e q" by (rule idq[rotated])
  qed
  have img: "idAt (heap s') e' ` ?P \<subseteq> insert ?g (idAt ?h e ` ?P)"
  proof
    fix v assume "v \<in> idAt (heap s') e' ` ?P"
    then obtain q where q: "q \<in> ?P" "v = idAt (heap s') e' q" by blast
    show "v \<in> insert ?g (idAt ?h e ` ?P)"
    proof (cases "q = pos nwp")
      case True
      then show ?thesis using q idp by simp
    next
      case False
      then have "v = idAt ?h e q" using q idq by simp
      then show ?thesis using q by blast
    qed
  qed
  have fl: "filter (itemExists (m2aStore s')) (map (idAt ?h e) dps) = memory"
    unfolding m
  proof (rule filter_cong[OF refl])
    fix v assume "v \<in> set (map (idAt ?h e) dps)"
    then have "v \<in> idAt ?h e ` ?P" by auto
    then have "v \<noteq> ?g" using gnid by blast
    then show "itemExists (m2aStore s') v = itemExists (m2aStore s) v" by (simp add: ex)
  qed
  have 1: "memory' = filter (itemExists (m2aStore s')) (map (idAt (heap s') e') (dps @ [pos nwp]))"
    by (simp add: m' mapd idp fl ex)
  have 2: "distinct memory'" using dm gnm by (simp add: m')
  have 3: "\<forall>u \<in> set memory'. ownedActive s' u"
  proof
    fix k assume "k \<in> set memory'"
    then show "ownedActive s' k"
      using oa oa_g oa_k[of k] by (cases "k = ?g") (auto simp: m')
  qed
  have 4: "\<forall>k. ownedActive s' k \<longrightarrow> k \<in> idAt (heap s') e' ` ?P"
  proof (intro allI impI)
    fix k assume k: "ownedActive s' k"
    show "k \<in> idAt (heap s') e' ` ?P"
    proof (cases "k = ?g")
      case True
      show ?thesis unfolding True idp[symmetric] using pP by (rule imageI)
    next
      case False
      then have ko: "ownedActive s k" using k oa_k by simp
      then obtain q where q: "q \<in> ?P" "k = idAt ?h e q" using cov by blast
      show ?thesis
      proof (cases "q = pos nwp")
        case False
        then have "k = idAt (heap s') e' q" using q idq by simp
        then show ?thesis using q(1) by blast
      next
        case True
        then have ku: "k = ?u" using q iu by simp
        then have "ownerField it = editorField s" using ko it by (simp add: ownedActive_def)
        then have "?u \<in> set memory" using dup by simp
        then obtain q' where q': "q' \<in> set dps" "idAt ?h e q' = ?u" using m by auto
        then have "q' \<noteq> pos nwp" using pnd by auto
        moreover have "q' \<in> ?P" using q' by simp
        ultimately have "idAt (heap s') e' q' = ?u" using idq q'(2) by simp
        then show ?thesis using \<open>q' \<in> ?P\<close> ku by (metis imageI)
      qed
    qed
  qed
  have 5: "uuidsUnused s' (idAt (heap s') e' ` ?P)"
    unfolding uuidsUnused_def uu
  proof (intro conjI allI impI)
    fix m n assume "Suc (issued (m2aStore s)) \<le> m \<and> m < n"
    then show "uuids (m2aStore s) m \<noteq> uuids (m2aStore s) n"
      using fr by (simp add: uuidsUnused_def)
  next
    fix n assume n: "Suc (issued (m2aStore s)) \<le> n"
    then have ng: "uuids (m2aStore s) n \<noteq> ?g"
      using fr unfolding uuidsUnused_def by (metis Suc_le_lessD order_refl)
    from n have "\<not> itemExists (m2aStore s) (uuids (m2aStore s) n)"
      using fr by (simp add: uuidsUnused_def)
    then show "\<not> itemExists (m2aStore s') (uuids (m2aStore s) n)"
      using ng by (simp add: ex)
    from n have "uuids (m2aStore s) n \<notin> idAt ?h e ` ?P"
      using fr by (simp add: uuidsUnused_def)
    then show "uuids (m2aStore s) n \<notin> idAt (heap s') e' ` ?P"
      using ng img by blast
  qed
  have "passInv tn s' memory' (dps @ [pos nwp]) todo"
    by (rule passInvI[OF e' tn' va' _ _ 0 1 2 3]; unfold ap; fact)
  then show ?thesis using f' by simp
qed

lemma passInv_step:
  assumes inv: "passInv tn s memory dps (nwp # todo)"
    and r: "syncInsertedNode s memory nwp = Inr (s', memory')"
  shows "passInv tn s' memory' (dps @ [pos nwp]) todo \<and> editorField s' = editorField s"
proof (cases "getItem (m2aStore s) (attrs_id (attrs (heap s ! node nwp)))")
  case None
  then have "syncInsertedNode s memory nwp = Inr (s, memory)"
    by (simp add: syncInsertedNode_skip itemExists_def)
  then have "s' = s \<and> memory' = memory" unfolding r by simp
  then show ?thesis using passInv_skip[OF inv None] by simp
next
  case (Some it)
  show ?thesis
  proof (cases "active it \<and> (attrs_id (attrs (heap s ! node nwp)) \<in> set memory
                            \<or> ownerField it \<noteq> editorField s)")
    case True
    then show ?thesis using passInv_dup[OF inv Some _ _ r] by blast
  next
    case False
    then show ?thesis using passInv_keep[OF inv Some False r] by blast
  qed
qed

lemma passInv_loop:
  assumes "passInv tn s memory dps todo"
    and "syncInsertedNodesLoop s memory todo = Inr (s', memory')"
  shows "passInv tn s' memory' (dps @ map pos todo) [] \<and> editorField s' = editorField s"
  using assms
proof (induction todo arbitrary: s memory dps)
  case Nil
  then show ?case by simp
next
  case (Cons nwp todo)
  from Cons.prems(2) obtain s1 m1 where
    st: "syncInsertedNode s memory nwp = Inr (s1, m1)"
    and lp: "syncInsertedNodesLoop s1 m1 todo = Inr (s', memory')"
    by (auto split: sum.splits)
  from passInv_step[OF Cons.prems(1) st]
  have i1: "passInv tn s1 m1 (dps @ [pos nwp]) todo" and f1: "editorField s1 = editorField s"
    by simp_all
  from Cons.IH[OF i1 lp] show ?case using f1 by simp
qed

subsection \<open>A pass over a stable document\<close>

lemma getExistingEditorNodes_Some:
  "editor s = Some e \<Longrightarrow> getExistingEditorNodes s = Inr (snapshot (heap s) e)"
  by (simp add: getExistingEditorNodes_def snapshot_def relationPositions_def)

lemma snapshot_pos [simp]: "map pos (snapshot h e) = relationPositions h e"
  by (simp add: snapshot_def comp_def)

lemma snapshot_ids [simp]:
  "map (\<lambda>nwp. attrs_id (attrs (h ! node nwp))) (snapshot h e) = relationNodeIds h e"
  by (simp add: snapshot_def relationNodeIds_def comp_def idAt_def)

lemma relationPositions_cong:
  assumes "map (\<lambda>a. typeName (h' ! a)) (doc e') = map (\<lambda>a. typeName (h ! a)) (doc e)"
  shows "relationPositions h' e' = relationPositions h e"
proof -
  have len: "length (doc e') = length (doc e)"
    using assms by (metis length_map)
  have "typeName (h' ! (doc e' ! p)) = typeName (h ! (doc e ! p))" if "p < length (doc e)" for p
  proof -
    have "map (\<lambda>a. typeName (h' ! a)) (doc e') ! p = map (\<lambda>a. typeName (h ! a)) (doc e) ! p"
      using assms by simp
    then show ?thesis using that len by simp
  qed
  then show ?thesis
    unfolding relationPositions_def len by (intro filter_cong) auto
qed

lemma syncRemovedNodes_eq:
  "syncRemovedNodes s editorNodes =
     (let (ids, st) = deactivateUnusedItems (m2aStore s)
                        (map (\<lambda>nwp. attrs_id (attrs (heap s ! node nwp))) editorNodes) (editorField s)
      in s\<lparr>m2aStore := st, m2aRelation := removeRelatedItemsLoop (m2aRelation s) ids\<rparr>)"
  by (cases "fst (deactivateUnusedItems (m2aStore s)
                        (map (\<lambda>nwp. attrs_id (attrs (heap s ! node nwp))) editorNodes) (editorField s))")
     (simp_all add: syncRemovedNodes_def removeRelatedItems_def Let_def split: prod.splits)

lemma syncRemovedNodes_fields:
  "editor (syncRemovedNodes s ns) = editor s"
  "editorField (syncRemovedNodes s ns) = editorField s"
  "m2aStore (syncRemovedNodes s ns) =
     snd (deactivateUnusedItems (m2aStore s) (map (\<lambda>nwp. attrs_id (attrs (heap s ! node nwp))) ns) (editorField s))"
  "heap (syncRemovedNodes s ns) = heap s"
  by (simp_all add: syncRemovedNodes_eq split: prod.splits)

lemma syncInsertedNodesLoop_stable:
  assumes "\<forall>n \<in> set ns. itemExists (m2aStore s) (attrs_id (attrs (heap s ! node n)))
              \<longrightarrow> ownedActive s (attrs_id (attrs (heap s ! node n)))"
    and "distinct (filter (itemExists (m2aStore s)) (map (\<lambda>n. attrs_id (attrs (heap s ! node n))) ns))"
    and "set (filter (itemExists (m2aStore s)) (map (\<lambda>n. attrs_id (attrs (heap s ! node n))) ns)) \<inter> set memory = {}"
  shows "syncInsertedNodesLoop s memory ns =
           Inr (s, memory @ filter (itemExists (m2aStore s)) (map (\<lambda>n. attrs_id (attrs (heap s ! node n))) ns))"
  using assms
proof (induction ns arbitrary: memory)
  case Nil
  then show ?case by simp
next
  case (Cons n ns)
  let ?u = "attrs_id (attrs (heap s ! node n))"
  show ?case
  proof (cases "itemExists (m2aStore s) ?u")
    case False
    then have "syncInsertedNode s memory n = Inr (s, memory)" by (rule syncInsertedNode_skip)
    moreover have "syncInsertedNodesLoop s memory ns =
           Inr (s, memory @ filter (itemExists (m2aStore s)) (map (\<lambda>n. attrs_id (attrs (heap s ! node n))) ns))"
      using Cons.prems False by (intro Cons.IH) simp_all
    ultimately show ?thesis using False by simp
  next
    case True
    then have "ownedActive s ?u" using Cons.prems(1) by simp
    then obtain it where it: "getItem (m2aStore s) ?u = Some it" "active it"
      "ownerField it = editorField s"
      by (auto simp: ownedActive_def)
    have um: "?u \<notin> set memory" using Cons.prems(3) True by auto
    have st: "syncInsertedNode s memory n = Inr (s, memory @ [?u])"
      by (rule syncInsertedNode_noop[OF it(1,2) um it(3)])
    have "syncInsertedNodesLoop s (memory @ [?u]) ns =
           Inr (s, (memory @ [?u]) @ filter (itemExists (m2aStore s)) (map (\<lambda>n. attrs_id (attrs (heap s ! node n))) ns))"
      using Cons.prems True by (intro Cons.IH) auto
    then show ?thesis using st True by simp
  qed
qed

lemma getItem_syncRemovedNodes:
  "getItem (m2aStore (syncRemovedNodes s ns)) k =
      map_option (\<lambda>it. if unusedItem (m2aStore s) (map (\<lambda>nwp. attrs_id (attrs (heap s ! node nwp))) ns) (editorField s) k
                        then it\<lparr>active := False\<rparr> else it)
        (getItem (m2aStore s) k)"
  by (simp add: syncRemovedNodes_fields(3) getItem_deactivateUnusedItems)

lemma itemExists_syncRemovedNodes:
  "itemExists (m2aStore (syncRemovedNodes s ns)) k = itemExists (m2aStore s) k"
  by (simp add: itemExists_def getItem_syncRemovedNodes)

lemma uuids_syncRemovedNodes:
  "uuids (m2aStore (syncRemovedNodes s ns)) = uuids (m2aStore s)"
  "issued (m2aStore (syncRemovedNodes s ns)) = issued (m2aStore s)"
  by (simp_all add: syncRemovedNodes_fields(3))

lemma ownedActive_syncRemovedNodes:
  assumes "ownedActive (syncRemovedNodes s ns) k"
  shows "k \<in> set (map (\<lambda>nwp. attrs_id (attrs (heap s ! node nwp))) ns)"
proof -
  let ?cur = "map (\<lambda>nwp. attrs_id (attrs (heap s ! node nwp))) ns"
  from assms obtain it1 where it1: "getItem (m2aStore (syncRemovedNodes s ns)) k = Some it1"
    "active it1" "ownerField it1 = editorField s"
    unfolding ownedActive_def syncRemovedNodes_fields(2) by blast
  from it1(1) obtain it0 where it0: "getItem (m2aStore s) k = Some it0"
    and e1: "it1 = (if unusedItem (m2aStore s) ?cur (editorField s) k then it0\<lparr>active := False\<rparr> else it0)"
    unfolding getItem_syncRemovedNodes by (cases "getItem (m2aStore s) k") simp_all
  have nu: "\<not> unusedItem (m2aStore s) ?cur (editorField s) k"
  proof
    assume "unusedItem (m2aStore s) ?cur (editorField s) k"
    then have "it1 = it0\<lparr>active := False\<rparr>" using e1 by simp
    then show False using it1(2) by simp
  qed
  then have "it1 = it0" using e1 by simp
  then have "active it0" "ownerField it0 = editorField s" using it1 by simp_all
  then show ?thesis using nu it0 by (simp add: unusedItem_def)
qed

lemma relationPositions_props:
  "distinct (relationPositions h e)" "\<forall>p \<in> set (relationPositions h e). p < length (doc e)"
  by (auto simp: relationPositions_def)

lemma snapshot_node: "\<forall>n \<in> set (snapshot h e). doc e ! pos n = node n"
  by (auto simp: snapshot_def)

lemma passInv_initial:
  assumes ed: "editor s = Some e"
    and sep: "separateBlocks (heap s) e"
    and fresh: "uuidsUnused s (set (relationNodeIds (heap s) e))"
  shows "passInv (map (\<lambda>a. typeName (heap s ! a)) (doc e))
           (syncRemovedNodes s (snapshot (heap s) e)) [] [] (snapshot (heap s) e)"
proof -
  let ?h = "heap s"
  let ?s1 = "syncRemovedNodes s (snapshot ?h e)"
  have h1: "heap ?s1 = ?h" by (rule syncRemovedNodes_fields(4))
  have L: "[] @ map pos (snapshot ?h e) = relationPositions ?h e" by simp
  have I: "idAt ?h e ` set (relationPositions ?h e) = set (relationNodeIds ?h e)"
    by (simp add: relationNodeIds_def)
  have e1: "editor ?s1 = Some e" using ed by (simp add: syncRemovedNodes_fields(1))
  have tn1: "map (\<lambda>a. typeName (heap ?s1 ! a)) (doc e) = map (\<lambda>a. typeName (?h ! a)) (doc e)"
    by (simp only: h1)
  have va1: "\<forall>a \<in> set (doc e). a < length (heap ?s1)"
    using sep by (simp add: h1 separateBlocks_def)
  have da1: "distinct (map (\<lambda>p. doc e ! p) ([] @ map pos (snapshot ?h e)))"
    using sep by (simp add: separateBlocks_def)
  have l1: "\<forall>p\<in>set ([] @ map pos (snapshot ?h e)). p < length (doc e)"
    unfolding L by (rule relationPositions_props(2))
  have i1: "\<forall>n\<in>set (snapshot ?h e). doc e ! pos n = node n"
    by (rule snapshot_node)
  have m1: "[] = filter (itemExists (m2aStore ?s1)) (map (idAt (heap ?s1) e) [])" by simp
  have dm1: "distinct ([] :: UUID list)" by simp
  have oa1: "\<forall>u\<in>set []. ownedActive ?s1 u" by simp
  have cov1: "\<forall>k. ownedActive ?s1 k \<longrightarrow> k \<in> idAt (heap ?s1) e ` set ([] @ map pos (snapshot ?h e))"
    unfolding L I h1 using ownedActive_syncRemovedNodes[of s "snapshot ?h e"] by simp
  have fr1: "uuidsUnused ?s1 (idAt (heap ?s1) e ` set ([] @ map pos (snapshot ?h e)))"
    unfolding L I h1 using fresh
    by (simp add: uuidsUnused_def itemExists_syncRemovedNodes uuids_syncRemovedNodes)
  show ?thesis
    by (rule passInvI[OF e1 tn1 va1 da1 l1 i1 m1 dm1 oa1 cov1 fr1])
qed

lemma syncRelationNodes_Inr:
  assumes "editor s = Some e" "syncRelationNodes s = Inr s'"
  shows "\<exists>memory'. syncInsertedNodesLoop (syncRemovedNodes s (snapshot (heap s) e)) []
                      (snapshot (heap s) e) = Inr (s', memory')"
proof -
  have "syncInsertedNodes (syncRemovedNodes s (snapshot (heap s) e)) (snapshot (heap s) e) = Inr s'"
    using assms by (simp add: syncRelationNodes_def getExistingEditorNodes_Some)
  then show ?thesis
    unfolding syncInsertedNodes_def nodeIdMemory_def
    by (cases "syncInsertedNodesLoop (syncRemovedNodes s (snapshot (heap s) e)) [] (snapshot (heap s) e)") auto
qed

lemma passInv_stable:
  assumes inv: "passInv (map (\<lambda>a. typeName (h0 ! a)) (doc e0)) s memory (relationPositions h0 e0) []"
  shows "syncRelationNodes s = Inr s"
proof -
  let ?h = "heap s"
  let ?N = "[] :: NodeWithPos list"
  from inv obtain e where e: "editor s = Some e"
    and tn: "map (\<lambda>a. typeName (?h ! a)) (doc e) = map (\<lambda>a. typeName (h0 ! a)) (doc e0)"
    and m: "memory = filter (itemExists (m2aStore s)) (map (idAt ?h e) (relationPositions h0 e0))"
    and dm: "distinct memory"
    and oa: "\<forall>u \<in> set memory. ownedActive s u"
    and cov: "\<forall>k. ownedActive s k \<longrightarrow> k \<in> idAt ?h e ` set (relationPositions h0 e0 @ map pos ?N)"
    by (rule passInvE)
  have rp: "relationPositions ?h e = relationPositions h0 e0"
    by (rule relationPositions_cong[OF tn])
  have ids: "relationNodeIds ?h e = map (idAt ?h e) (relationPositions h0 e0)"
    by (simp add: relationNodeIds_def rp)
  have cov': "\<And>k. ownedActive s k \<Longrightarrow> k \<in> set (relationNodeIds ?h e)"
    using cov by (simp add: ids)
  have m': "memory = filter (itemExists (m2aStore s)) (relationNodeIds ?h e)"
    using m by (simp add: ids)
  have rem: "syncRemovedNodes s (snapshot ?h e) = s"
  proof (rule syncRemovedNodes_none)
    fix k
    show "\<not> unusedItem (m2aStore s) (map (\<lambda>nwp. attrs_id (attrs (?h ! node nwp))) (snapshot ?h e)) (editorField s) k"
    proof
      assume u: "unusedItem (m2aStore s) (map (\<lambda>nwp. attrs_id (attrs (?h ! node nwp))) (snapshot ?h e)) (editorField s) k"
      then obtain it where it: "getItem (m2aStore s) k = Some it" "active it"
          "ownerField it = editorField s" "k \<notin> set (relationNodeIds ?h e)"
        unfolding unusedItem_def snapshot_ids by (cases "getItem (m2aStore s) k") simp_all
      then have "ownedActive s k" unfolding ownedActive_def by blast
      then show False using cov' it(4) by blast
    qed
  qed
  have ins: "syncInsertedNodesLoop s [] (snapshot ?h e) =
       Inr (s, [] @ filter (itemExists (m2aStore s)) (map (\<lambda>n. attrs_id (attrs (?h ! node n))) (snapshot ?h e)))"
  proof (rule syncInsertedNodesLoop_stable)
    show "\<forall>n\<in>set (snapshot ?h e). itemExists (m2aStore s) (attrs_id (attrs (?h ! node n)))
             \<longrightarrow> ownedActive s (attrs_id (attrs (?h ! node n)))"
    proof (intro ballI impI)
      fix n assume n: "n \<in> set (snapshot ?h e)" and x: "itemExists (m2aStore s) (attrs_id (attrs (?h ! node n)))"
      from n have "attrs_id (attrs (?h ! node n)) \<in> set (map (\<lambda>n. attrs_id (attrs (?h ! node n))) (snapshot ?h e))"
        by (rule imageI[of n "set (snapshot ?h e)" "\<lambda>n. attrs_id (attrs (?h ! node n))", folded set_map])
      then have "attrs_id (attrs (?h ! node n)) \<in> set (relationNodeIds ?h e)"
        unfolding snapshot_ids .
      then have "attrs_id (attrs (?h ! node n)) \<in> set memory"
        using x unfolding m' by simp
      then show "ownedActive s (attrs_id (attrs (?h ! node n)))" using oa by blast
    qed
    show "distinct (filter (itemExists (m2aStore s)) (map (\<lambda>n. attrs_id (attrs (?h ! node n))) (snapshot ?h e)))"
      using dm unfolding m' snapshot_ids .
    show "set (filter (itemExists (m2aStore s)) (map (\<lambda>n. attrs_id (attrs (?h ! node n))) (snapshot ?h e))) \<inter> set [] = {}"
      by simp
  qed
  have "syncRelationNodes s = syncInsertedNodes (syncRemovedNodes s (snapshot ?h e)) (snapshot ?h e)"
    by (simp add: syncRelationNodes_def getExistingEditorNodes_Some[OF e])
  also have "\<dots> = syncInsertedNodes s (snapshot ?h e)"
    by (simp only: rem)
  also have "\<dots> = Inr s"
    by (simp add: syncInsertedNodes_def nodeIdMemory_def ins)
  finally show ?thesis .
qed

lemma exampleUuids_unused:
  assumes "\<forall>k \<in> set (map fst its) \<union> ids. hd k \<noteq> CHR ''N''"
  shows "uuidsUnused (exampleState its disp h d f) ids"
proof -
  have "\<not> itemExists \<lparr>items = its, uuids = exampleUuids, issued = 0, mutations = []\<rparr> (exampleUuids n)" for n
  proof
    assume "itemExists \<lparr>items = its, uuids = exampleUuids, issued = 0, mutations = []\<rparr> (exampleUuids n)"
    then have "exampleUuids n \<in> fst ` set its"
      using map_of_eq_None_iff[of its "exampleUuids n"] by (simp add: itemExists_def getItem_def)
    then have "hd (exampleUuids n) \<noteq> CHR ''N''" using assms by simp
    then show False by (simp add: exampleUuids_def)
  qed
  moreover have "exampleUuids n \<notin> ids" for n
  proof
    assume "exampleUuids n \<in> ids"
    then have "hd (exampleUuids n) \<noteq> CHR ''N''" using assms by simp
    then show False by (simp add: exampleUuids_def)
  qed
  ultimately show ?thesis
    by (simp add: uuidsUnused_def exampleState_def) (simp add: exampleUuids_def)
qed

lemmas pass_defs = example_defs silentMarkup_def
      syncRelationNodes_def getExistingEditorNodes_def
      syncRemovedNodes_def deactivateUnusedItems_def unusedItem_def getItem_def
      removeRelatedItems_def syncInsertedNodes_def nodeIdMemory_def
      syncInsertedNode_def itemExists_def itemIsActive_def itemIsNew_def itemFromDifferentEditor_def
      nodeIdUniqueInEditor_eq replaceLastItem_snoc duplicateItem_def setItem_def setField_def
      refreshEditorNodeId_def updateNodeAttrs_def setNodeMarkup_def setMeta_def dispatch_def
      create_def remove_def findDisplayItem_def Let_def

lemma duplicate_pass: "syncRelationNodes duplicateBefore = Inr duplicateAfter"
  by (simp add: duplicateBefore_def duplicateAfter_def pass_defs)

lemma shared_pass: "syncRelationNodes sharedBefore = Inr sharedAfter"
  by (simp add: sharedBefore_def sharedAfter_def pass_defs)

lemma shared_second_pass: "syncRelationNodes sharedAfter = Inr sharedAfterSecond"
  by (simp add: sharedAfter_def sharedAfterSecond_def pass_defs)

subsection \<open>The pass returns\<close>

lemma syncInsertedNode_total:
  assumes ed: "editor s = Some e" and p: "pos nwp < length (doc e)"
  shows "\<exists>s' m' e'. syncInsertedNode s memory nwp = Inr (s', m')
            \<and> editor s' = Some e' \<and> length (doc e') = length (doc e)"
proof (cases "getItem (m2aStore s) (attrs_id (attrs (heap s ! node nwp)))")
  case None
  then have "syncInsertedNode s memory nwp = Inr (s, memory)"
    by (simp add: syncInsertedNode_skip itemExists_def)
  then show ?thesis using ed by simp
next
  case (Some it)
  let ?u = "attrs_id (attrs (heap s ! node nwp))"
  show ?thesis
  proof (cases "active it")
    case True
    show ?thesis
    proof (cases "?u \<in> set memory \<or> ownerField it \<noteq> editorField s")
      case dup: True
      show ?thesis
        by (simp add: syncInsertedNode_duplicate[OF Some True dup ed p] Let_def)
    next
      case False
      then have "syncInsertedNode s memory nwp = Inr (s, memory @ [?u])"
        using syncInsertedNode_noop[OF Some True] by simp
      then show ?thesis using ed by simp
    qed
  next
    case False
    show ?thesis
    proof (cases "isNew it")
      case True
      show ?thesis
        using ed by (simp add: syncInsertedNode_create[OF Some False True] Let_def)
    next
      case new: False
      show ?thesis
        using ed
        by (simp add: syncInsertedNode_reactivate[OF Some False new] Let_def split: option.splits)
    qed
  qed
qed

lemma syncInsertedNodesLoop_total:
  assumes "editor s = Some e" and "\<forall>n \<in> set ns. pos n < length (doc e)"
  shows "\<exists>s' m'. syncInsertedNodesLoop s memory ns = Inr (s', m')"
  using assms
proof (induction ns arbitrary: s memory e)
  case Nil
  then show ?case by simp
next
  case (Cons n ns)
  from Cons.prems have p: "pos n < length (doc e)" by simp
  from syncInsertedNode_total[OF Cons.prems(1) p, of memory] obtain s1 m1 e1 where
    st: "syncInsertedNode s memory n = Inr (s1, m1)"
    and e1: "editor s1 = Some e1" and l1: "length (doc e1) = length (doc e)"
    by blast
  have "\<forall>n \<in> set ns. pos n < length (doc e1)"
    using Cons.prems(2) l1 by simp
  from Cons.IH[OF e1 this, of m1] show ?case
    using st by simp
qed

lemma syncRelationNodes_total:
  assumes "editor s = Some e"
  shows "\<exists>s'. syncRelationNodes s = Inr s'"
proof -
  let ?ns = "snapshot (heap s) e"
  have e1: "editor (syncRemovedNodes s ?ns) = Some e"
    using assms by (simp add: syncRemovedNodes_fields(1))
  have "\<forall>n \<in> set ?ns. pos n < length (doc e)"
    by (simp add: snapshot_def relationPositions_def)
  from syncInsertedNodesLoop_total[OF e1 this, of nodeIdMemory] obtain s' m' where
    "syncInsertedNodesLoop (syncRemovedNodes s ?ns) nodeIdMemory ?ns = Inr (s', m')"
    by blast
  then have "syncRelationNodes s = Inr s'"
    by (simp add: syncRelationNodes_def getExistingEditorNodes_Some[OF assms] syncInsertedNodes_def)
  then show ?thesis by blast
qed

lemma syncRelationNodes_no_editor:
  "editor s = None \<Longrightarrow> syncRelationNodes s = Inl TypeError"
  by (simp add: syncRelationNodes_def getExistingEditorNodes_def)

lemma second_pass_stable:
  assumes ed: "editor s = Some e"
    and sep: "separateBlocks (heap s) e"
    and fresh: "uuidsUnused s (set (relationNodeIds (heap s) e))"
    and r: "syncRelationNodes s = Inr s'"
  shows "syncRelationNodes s' = Inr s'"
proof -
  from syncRelationNodes_Inr[OF ed r] obtain memory' where
    lp: "syncInsertedNodesLoop (syncRemovedNodes s (snapshot (heap s) e)) [] (snapshot (heap s) e)
           = Inr (s', memory')"
    by blast
  have "passInv (map (\<lambda>a. typeName (heap s ! a)) (doc e)) s' memory'
          ([] @ map pos (snapshot (heap s) e)) []"
    using passInv_loop[OF passInv_initial[OF ed sep fresh] lp] by blast
  then have "passInv (map (\<lambda>a. typeName (heap s ! a)) (doc e)) s' memory'
          (relationPositions (heap s) e) []"
    by simp
  then show ?thesis by (rule passInv_stable)
qed

subsection \<open>A second pass over the unchanged document\<close>

text \<open>
  C1, on a document that holds one node object at two positions: the first pass gives
  the second position a new node with the identity \<open>N\<close>, and the assignment to the
  attributes of the snapshot's node (line 156) gives \<open>N\<close> to the object that the first
  position still holds. The second pass over the unchanged document then deactivates the
  item \<open>U1\<close>, which no node carries any more, duplicates \<open>N\<close> into \<open>Nx\<close>, issues a
  second create on the relation collection and dispatches a second transaction. On
  documents whose relation blocks are separate objects, and with fresh identities, the
  second pass changes nothing (lemma \<open>second_pass_stable\<close>).
\<close>

theorem C1_second_pass_on_shared_node:
  "syncRelationNodes sharedBefore = Inr sharedAfter
   \<and> relationNodeIds (heap sharedAfter) \<lparr>doc = [0, 1],
         dispatched = [silentMarkup 1 \<lparr>attrs_id = ''N'', attrs_rest = Map.empty\<rparr>]\<rparr> = [''N'', ''N'']
   \<and> syncRelationNodes sharedAfter = Inr sharedAfterSecond
   \<and> mutations (m2aStore sharedAfterSecond)
        = mutations (m2aStore sharedAfter) @ [DeactivateItem ''U1'', DuplicateItem ''N'' ''Nx'']
   \<and> calls (m2aRelation sharedAfterSecond)
        = calls (m2aRelation sharedAfter) @ [Create [''title'' \<mapsto> Str ''t'']]
   \<and> sharedAfterSecond \<noteq> sharedAfter"
proof -
  have 1: "relationNodeIds (heap sharedAfter) \<lparr>doc = [0, 1],
         dispatched = [silentMarkup 1 \<lparr>attrs_id = ''N'', attrs_rest = Map.empty\<rparr>]\<rparr> = [''N'', ''N'']"
    by (simp add: sharedAfter_def relationNodeIds_def relationPositions_def idAt_def
        relationBlock_def upt_rec)
  have 2: "mutations (m2aStore sharedAfterSecond)
        = mutations (m2aStore sharedAfter) @ [DeactivateItem ''U1'', DuplicateItem ''N'' ''Nx'']"
    by (simp add: sharedAfter_def sharedAfterSecond_def)
  have 3: "calls (m2aRelation sharedAfterSecond)
        = calls (m2aRelation sharedAfter) @ [Create [''title'' \<mapsto> Str ''t'']]"
    by (simp add: sharedAfter_def sharedAfterSecond_def)
  have "issued (m2aStore sharedAfterSecond) \<noteq> issued (m2aStore sharedAfter)"
    by (simp add: sharedAfter_def sharedAfterSecond_def)
  then have 4: "sharedAfterSecond \<noteq> sharedAfter" by metis
  show ?thesis
    by (intro conjI shared_pass shared_second_pass 1 2 3 4)
qed

subsection \<open>The identities of the nodes after a pass\<close>

lemma dup_idAt:
  assumes va: "\<forall>a \<in> set (doc e). a < length h"
    and da: "distinct (map (\<lambda>p. doc e ! p) L)"
    and l: "\<forall>p \<in> set L. p < length (doc e)"
    and pL: "p \<in> set L" and x: "doc e ! p = nd"
    and d': "doc e' = (doc e)[p := length h]"
  shows "idAt (patchedHeap h (doc e ! p) nd a) e' p = attrs_id a"
    and "\<And>q. q \<in> set L \<Longrightarrow> q \<noteq> p \<Longrightarrow> idAt (patchedHeap h (doc e ! p) nd a) e' q = idAt h e q"
proof -
  have p: "p < length (doc e)" using l pL by simp
  then have dp: "doc e' ! p = length h" by (simp add: d')
  show "idAt (patchedHeap h (doc e ! p) nd a) e' p = attrs_id a"
    by (simp add: idAt_def dp patchedHeap_new)
next
  fix q assume q: "q \<in> set L" "q \<noteq> p"
  have inj: "inj_on (\<lambda>p. doc e ! p) (set L)"
    using da by (simp only: distinct_map)
  have valid: "doc e ! q < length h"
    using va l q(1) by (metis nth_mem)
  have other: "doc e ! q \<noteq> nd"
  proof
    assume "doc e ! q = nd"
    then have "doc e ! q = doc e ! p" using x by simp
    then have "q = p" by (rule inj_onD[OF inj _ q(1) pL])
    then show False using q(2) by simp
  qed
  have dq: "doc e' ! q = doc e ! q" using q(2) by (simp add: d')
  show "idAt (patchedHeap h (doc e ! p) nd a) e' q = idAt h e q"
    using valid other by (simp add: idAt_def dq patchedHeap_other)
qed

lemma step_ids:
  assumes inv: "passInv tn s memory dps (nwp # todo)"
    and it: "getItem (m2aStore s) (attrs_id (attrs (heap s ! node nwp))) = Some it"
    and r: "syncInsertedNode s memory nwp = Inr (s1, memory1)"
    and ed: "editor s = Some e"
  shows "\<exists>e1. editor s1 = Some e1
          \<and> (\<forall>q \<in> set (dps @ map pos todo). idAt (heap s1) e1 q = idAt (heap s) e q)
          \<and> uuids (m2aStore s1) = uuids (m2aStore s)
          \<and> issued (m2aStore s) \<le> issued (m2aStore s1)
          \<and> (\<forall>w. itemExists (m2aStore s) w \<longrightarrow> itemExists (m2aStore s1) w)
          \<and> itemExists (m2aStore s1) (idAt (heap s1) e1 (pos nwp))
          \<and> idAt (heap s1) e1 (pos nwp) =
               (if blocked s memory (attrs_id (attrs (heap s ! node nwp)))
                then uuids (m2aStore s) (issued (m2aStore s))
                else attrs_id (attrs (heap s ! node nwp)))
          \<and> (\<forall>w. itemExists (m2aStore s) w \<longrightarrow>
                 (blocked s1 memory1 w
                   \<longleftrightarrow> (w = attrs_id (attrs (heap s ! node nwp)) \<or> blocked s memory w)))"
proof -
  let ?u = "attrs_id (attrs (heap s ! node nwp))"
  let ?g = "uuids (m2aStore s) (issued (m2aStore s))"
  let ?a = "(attrs (heap s ! node nwp))\<lparr>attrs_id := ?g\<rparr>"
  let ?L = "dps @ map pos (nwp # todo)"
  let ?h = "heap s"
  from inv obtain e0 where e0: "editor s = Some e0"
    and va0: "\<forall>a \<in> set (doc e0). a < length ?h"
    and da0: "distinct (map (\<lambda>p. doc e0 ! p) ?L)"
    and l0: "\<forall>p \<in> set ?L. p < length (doc e0)"
    and i0: "\<forall>n \<in> set (nwp # todo). doc e0 ! pos n = node n"
    and fr0: "uuidsUnused s (idAt ?h e0 ` set ?L)"
    by (rule passInvE)
  have ee: "e0 = e" using e0 ed by simp
  note va = va0[unfolded ee] and da = da0[unfolded ee] and l = l0[unfolded ee]
    and i = i0[unfolded ee] and fr = fr0[unfolded ee]
  have p: "pos nwp < length (doc e)" using l by simp
  have x: "doc e ! pos nwp = node nwp" using i by simp
  have iu: "idAt ?h e (pos nwp) = ?u" using x by (simp add: idAt_def)
  have bl: "blocked s memory ?u \<longleftrightarrow> active it \<and> (?u \<in> set memory \<or> ownerField it \<noteq> editorField s)"
    using it by (simp add: blocked_def)
  show ?thesis
  proof (cases "blocked s memory ?u")
    case False
    then have nd: "\<not> (active it \<and> (?u \<in> set memory \<or> ownerField it \<noteq> editorField s))"
      using bl by simp
    from syncInsertedNode_keep_summary[OF it nd r] obtain it' where
      m': "memory1 = memory @ [?u]" and e': "editor s1 = editor s"
      and h': "heap s1 = heap s"
      and f': "editorField s1 = editorField s"
      and uu: "uuids (m2aStore s1) = uuids (m2aStore s)" "issued (m2aStore s1) = issued (m2aStore s)"
      and g': "getItem (m2aStore s1) = (getItem (m2aStore s))(?u \<mapsto> it')"
      and a': "active it'" "ownerField it' = editorField s"
      by blast
    have ex: "itemExists (m2aStore s1) w = itemExists (m2aStore s) w" for w
      using it by (simp add: itemExists_def g')
    have b1: "blocked s1 memory1 ?u"
      using a' by (simp add: blocked_def g' m')
    have b2: "w \<noteq> ?u \<Longrightarrow> blocked s1 memory1 w = blocked s memory w" for w
      by (simp add: blocked_def g' m' f')
    have b: "\<forall>w. itemExists (m2aStore s) w \<longrightarrow> (blocked s1 memory1 w \<longleftrightarrow> (w = ?u \<or> blocked s memory w))"
    proof (intro allI impI)
      fix w
      show "blocked s1 memory1 w \<longleftrightarrow> (w = ?u \<or> blocked s memory w)"
        using b1 b2[of w] by (cases "w = ?u") simp_all
    qed
    have xu: "itemExists (m2aStore s1) (idAt (heap s1) e (pos nwp))"
      unfolding h' iu itemExists_def g' by simp
    have e1: "editor s1 = Some e" using e' ed by simp
    have A: "\<forall>q \<in> set (dps @ map pos todo). idAt (heap s1) e q = idAt ?h e q"
      by (simp add: h')
    have V: "idAt (heap s1) e (pos nwp) = (if blocked s memory ?u then ?g else ?u)"
      using False iu by (simp add: h')
    have I: "issued (m2aStore s) \<le> issued (m2aStore s1)" using uu by simp
    have X: "\<forall>w. itemExists (m2aStore s) w \<longrightarrow> itemExists (m2aStore s1) w" using ex by simp
    show ?thesis
      by (intro exI[of _ e] conjI e1 A uu(1) I X xu V b)
  next
    case True
    then have act: "active it" and dup: "?u \<in> set memory \<or> ownerField it \<noteq> editorField s"
      using bl by simp_all
    from syncInsertedNode_dup_summary[OF it act dup ed p r] obtain e' it' where
      m': "memory1 = memory @ [?g]"
      and f': "editorField s1 = editorField s"
      and uu: "uuids (m2aStore s1) = uuids (m2aStore s)" "issued (m2aStore s1) = Suc (issued (m2aStore s))"
      and e': "editor s1 = Some e'"
      and d': "doc e' = (doc e)[pos nwp := length ?h]"
      and h': "heap s1 = patchedHeap ?h (doc e ! pos nwp) (node nwp) ?a"
      and g': "getItem (m2aStore s1) = (getItem (m2aStore s))(?g \<mapsto> it')"
      and a': "active it'" "ownerField it' = editorField s"
      by blast
    have gne: "\<not> itemExists (m2aStore s) ?g"
      using fr by (simp add: uuidsUnused_def)
    have ex: "itemExists (m2aStore s1) w = (w = ?g \<or> itemExists (m2aStore s) w)" for w
      by (simp add: itemExists_def g')
    have pL: "pos nwp \<in> set ?L" by simp
    have idp: "idAt (heap s1) e' (pos nwp) = ?g"
      unfolding h' using dup_idAt(1)[OF va da l pL x d', of ?a] by simp
    have dL: "distinct ?L" using da by (simp only: distinct_map)
    have A: "\<forall>q \<in> set (dps @ map pos todo). idAt (heap s1) e' q = idAt ?h e q"
    proof
      fix q assume q: "q \<in> set (dps @ map pos todo)"
      then have qL: "q \<in> set ?L" by auto
      have qp: "q \<noteq> pos nwp" using dL q by auto
      show "idAt (heap s1) e' q = idAt ?h e q"
        unfolding h' by (rule dup_idAt(2)[OF va da l pL x d' qL qp])
    qed
    have b: "\<forall>w. itemExists (m2aStore s) w \<longrightarrow> (blocked s1 memory1 w \<longleftrightarrow> (w = ?u \<or> blocked s memory w))"
    proof (intro allI impI)
      fix w assume w: "itemExists (m2aStore s) w"
      then have wg: "w \<noteq> ?g" using gne by auto
      then have "blocked s1 memory1 w = blocked s memory w"
        by (simp add: blocked_def g' m' f')
      then show "blocked s1 memory1 w \<longleftrightarrow> (w = ?u \<or> blocked s memory w)"
        using True by auto
    qed
    have xu: "itemExists (m2aStore s1) (idAt (heap s1) e' (pos nwp))"
      by (simp add: idp ex)
    have V: "idAt (heap s1) e' (pos nwp) = (if blocked s memory ?u then ?g else ?u)"
      using True idp by simp
    have I: "issued (m2aStore s) \<le> issued (m2aStore s1)" using uu by simp
    have X: "\<forall>w. itemExists (m2aStore s) w \<longrightarrow> itemExists (m2aStore s1) w" using ex by simp
    show ?thesis
      by (intro exI[of _ e'] conjI e' A uu(1) I X xu V b)
  qed
qed

lemma loop_ids:
  assumes inv: "passInv tn s memory dps todo"
    and ex: "\<forall>n \<in> set todo. itemExists (m2aStore s) (idAt (heap s) e (pos n))"
    and lp: "syncInsertedNodesLoop s memory todo = Inr (s', memory')"
    and ed: "editor s = Some e"
  shows "\<exists>e'. editor s' = Some e'
          \<and> (\<forall>q \<in> set dps. idAt (heap s') e' q = idAt (heap s) e q)
          \<and> uuids (m2aStore s') = uuids (m2aStore s)
          \<and> issued (m2aStore s) \<le> issued (m2aStore s')
          \<and> (\<forall>w. itemExists (m2aStore s) w \<longrightarrow> itemExists (m2aStore s') w)
          \<and> (\<forall>i < length todo.
                itemExists (m2aStore s') (idAt (heap s') e' (pos (todo ! i)))
                \<and> finalId s memory (take i (map (\<lambda>n. idAt (heap s) e (pos n)) todo))
                     (idAt (heap s) e (pos (todo ! i))) (idAt (heap s') e' (pos (todo ! i))))"
  using assms
proof (induction todo arbitrary: s memory dps e)
  case Nil
  then show ?case by simp
next
  case (Cons n todo)
  let ?idn = "\<lambda>n. idAt (heap s) e (pos n)"
  let ?u = "idAt (heap s) e (pos n)"
  from Cons.prems(3) obtain s1 m1 where
    st: "syncInsertedNode s memory n = Inr (s1, m1)"
    and lp1: "syncInsertedNodesLoop s1 m1 todo = Inr (s', memory')"
    by (auto split: sum.splits)
  from passInv_step[OF Cons.prems(1) st]
  have inv1: "passInv tn s1 m1 (dps @ [pos n]) todo" by simp
  from Cons.prems(1) obtain e0 where e0: "editor s = Some e0"
    and da0: "distinct (map (\<lambda>p. doc e0 ! p) (dps @ map pos (n # todo)))"
    and i0: "\<forall>m \<in> set (n # todo). doc e0 ! pos m = node m"
    by (rule passInvE)
  have ee: "e0 = e" using e0 Cons.prems(4) by simp
  have dL: "distinct (dps @ map pos (n # todo))" using da0 by (simp only: distinct_map)
  then have pn: "pos n \<notin> pos ` set todo" and pd: "pos n \<notin> set dps" by auto
  have un: "attrs_id (attrs (heap s ! node n)) = ?u"
    using i0 ee by (simp add: idAt_def)
  from Cons.prems(2) obtain it where it: "getItem (m2aStore s) (attrs_id (attrs (heap s ! node n))) = Some it"
    unfolding un by (auto simp: itemExists_def)
  from step_ids[OF Cons.prems(1) it st Cons.prems(4)] obtain e1 where
    e1: "editor s1 = Some e1"
    and fr1: "\<forall>q \<in> set (dps @ map pos todo). idAt (heap s1) e1 q = idAt (heap s) e q"
    and uu1: "uuids (m2aStore s1) = uuids (m2aStore s)"
    and is1: "issued (m2aStore s) \<le> issued (m2aStore s1)"
    and ex1: "\<forall>w. itemExists (m2aStore s) w \<longrightarrow> itemExists (m2aStore s1) w"
    and xn: "itemExists (m2aStore s1) (idAt (heap s1) e1 (pos n))"
    and vn: "idAt (heap s1) e1 (pos n) = (if blocked s memory ?u then uuids (m2aStore s) (issued (m2aStore s)) else ?u)"
    and bl: "\<forall>w. itemExists (m2aStore s) w \<longrightarrow> (blocked s1 m1 w \<longleftrightarrow> (w = ?u \<or> blocked s memory w))"
    unfolding un by blast
  have same: "idAt (heap s1) e1 (pos m) = ?idn m" if "m \<in> set todo" for m
    using fr1 that by simp
  have exr: "\<forall>m \<in> set todo. itemExists (m2aStore s1) (idAt (heap s1) e1 (pos m))"
    using Cons.prems(2) ex1 same by simp
  have mp: "map (\<lambda>m. idAt (heap s1) e1 (pos m)) todo = map ?idn todo"
    using same by (intro map_cong[OF refl])
  from Cons.IH[OF inv1 exr lp1 e1] obtain e' where
    e': "editor s' = Some e'"
    and fr2: "\<forall>q \<in> set (dps @ [pos n]). idAt (heap s') e' q = idAt (heap s1) e1 q"
    and uu2: "uuids (m2aStore s') = uuids (m2aStore s1)"
    and is2: "issued (m2aStore s1) \<le> issued (m2aStore s')"
    and ex2: "\<forall>w. itemExists (m2aStore s1) w \<longrightarrow> itemExists (m2aStore s') w"
    and ih0: "\<forall>i < length todo.
                itemExists (m2aStore s') (idAt (heap s') e' (pos (todo ! i)))
                \<and> finalId s1 m1 (take i (map (\<lambda>m. idAt (heap s1) e1 (pos m)) todo))
                    (idAt (heap s1) e1 (pos (todo ! i))) (idAt (heap s') e' (pos (todo ! i)))"
    by blast
  have ih: "itemExists (m2aStore s') (idAt (heap s') e' (pos (todo ! j)))
            \<and> finalId s1 m1 (take j (map ?idn todo)) (?idn (todo ! j)) (idAt (heap s') e' (pos (todo ! j)))"
    if "j < length todo" for j
    using ih0[rule_format, OF that] same[of "todo ! j"] that unfolding mp by simp
  have A: "\<forall>q \<in> set dps. idAt (heap s') e' q = idAt (heap s) e q"
    using fr1 fr2 by simp
  have B: "uuids (m2aStore s') = uuids (m2aStore s)" using uu1 uu2 by simp
  have C: "issued (m2aStore s) \<le> issued (m2aStore s')" using is1 is2 by simp
  have D: "\<forall>w. itemExists (m2aStore s) w \<longrightarrow> itemExists (m2aStore s') w"
    using ex1 ex2 by blast
  have vn': "idAt (heap s') e' (pos n) = idAt (heap s1) e1 (pos n)" using fr2 by simp
  have E: "\<forall>i < length (n # todo).
                itemExists (m2aStore s') (idAt (heap s') e' (pos ((n # todo) ! i)))
                \<and> finalId s memory (take i (map ?idn (n # todo)))
                     (?idn ((n # todo) ! i)) (idAt (heap s') e' (pos ((n # todo) ! i)))"
  proof (intro allI impI)
    fix i assume i: "i < length (n # todo)"
    show "itemExists (m2aStore s') (idAt (heap s') e' (pos ((n # todo) ! i)))
          \<and> finalId s memory (take i (map ?idn (n # todo)))
               (?idn ((n # todo) ! i)) (idAt (heap s') e' (pos ((n # todo) ! i)))"
    proof (cases i)
      case 0
      have "itemExists (m2aStore s') (idAt (heap s') e' (pos n))"
        using xn ex2 vn' by simp
      moreover have "finalId s memory [] ?u (idAt (heap s') e' (pos n))"
        unfolding finalId_def vn' vn by auto
      ultimately show ?thesis using 0 by simp
    next
      case (Suc j)
      then have j: "j < length todo" using i by simp
      let ?w = "?idn (todo ! j)"
      let ?v = "idAt (heap s') e' (pos (todo ! j))"
      have wx: "itemExists (m2aStore s) ?w" using Cons.prems(2) j by simp
      from ih[OF j] have x: "itemExists (m2aStore s') ?v"
        and f: "finalId s1 m1 (take j (map ?idn todo)) ?w ?v" by simp_all
      have c: "(?w \<in> set (take j (map ?idn todo)) \<or> blocked s1 m1 ?w)
               \<longleftrightarrow> (?w \<in> set (take (Suc j) (map ?idn (n # todo))) \<or> blocked s memory ?w)"
        using bl wx by auto
      have "finalId s memory (take (Suc j) (map ?idn (n # todo))) ?w ?v"
      proof (cases "?w \<in> set (take j (map ?idn todo)) \<or> blocked s1 m1 ?w")
        case True
        then obtain k where "k \<ge> issued (m2aStore s1)" "?v = uuids (m2aStore s1) k"
          using f unfolding finalId_def by auto
        then have "\<exists>k \<ge> issued (m2aStore s). ?v = uuids (m2aStore s) k"
          using is1 uu1 by (intro exI[of _ k]) simp
        then show ?thesis using True c unfolding finalId_def by simp
      next
        case False
        then have "?v = ?w" using f unfolding finalId_def by simp
        then show ?thesis using False c unfolding finalId_def by simp
      qed
      then show ?thesis using x Suc by simp
    qed
  qed
  show ?case
    by (intro exI[of _ e'] conjI e' A B C D E)
qed

lemma getItem_syncRemovedNodes_current:
  assumes "k \<in> set (map (\<lambda>nwp. attrs_id (attrs (heap s ! node nwp))) ns)"
  shows "getItem (m2aStore (syncRemovedNodes s ns)) k = getItem (m2aStore s) k"
proof -
  have "\<not> unusedItem (m2aStore s) (map (\<lambda>nwp. attrs_id (attrs (heap s ! node nwp))) ns) (editorField s) k"
    using assms by (simp add: unusedItem_def split: option.splits)
  then show ?thesis
    by (simp add: getItem_syncRemovedNodes option.map_ident)
qed

lemma blocked_initial:
  assumes "u \<in> set (relationNodeIds (heap s) e)"
  shows "blocked (syncRemovedNodes s (snapshot (heap s) e)) [] u
         \<longleftrightarrow> itemIsActive (m2aStore s) u \<and> itemFromDifferentEditor (m2aStore s) u (editorField s)"
proof -
  have "getItem (m2aStore (syncRemovedNodes s (snapshot (heap s) e))) u = getItem (m2aStore s) u"
    using assms by (intro getItem_syncRemovedNodes_current) simp
  then show ?thesis
    by (auto simp: blocked_def itemIsActive_def itemFromDifferentEditor_def
        syncRemovedNodes_fields(2) split: option.splits)
qed

lemma crossField_pass: "syncRelationNodes crossFieldBefore = Inr crossFieldAfter"
  by (simp add: crossFieldBefore_def crossFieldAfter_def pass_defs)

lemma snapshot_idAt_map:
  "map (\<lambda>n. idAt h e (pos n)) (snapshot h e) = relationNodeIds h e"
  by (simp add: snapshot_def relationNodeIds_def comp_def)

lemma identities_after_pass:
  assumes ed: "editor s = Some e"
    and sep: "separateBlocks (heap s) e"
    and fresh: "uuidsUnused s (set (relationNodeIds (heap s) e))"
    and ex: "\<forall>u \<in> set (relationNodeIds (heap s) e). itemExists (m2aStore s) u"
    and r: "syncRelationNodes s = Inr s'"
  shows "\<exists>e'. editor s' = Some e'
          \<and> relationPositions (heap s') e' = relationPositions (heap s) e
          \<and> distinct (relationNodeIds (heap s') e')
          \<and> (\<forall>i < length (relationNodeIds (heap s) e).
                if relationNodeIds (heap s) e ! i \<in> set (take i (relationNodeIds (heap s) e))
                   \<or> (itemIsActive (m2aStore s) (relationNodeIds (heap s) e ! i)
                       \<and> itemFromDifferentEditor (m2aStore s) (relationNodeIds (heap s) e ! i) (editorField s))
                then relationNodeIds (heap s') e' ! i \<notin> set (relationNodeIds (heap s) e)
                     \<and> \<not> itemExists (m2aStore s) (relationNodeIds (heap s') e' ! i)
                else relationNodeIds (heap s') e' ! i = relationNodeIds (heap s) e ! i)"
proof -
  let ?h = "heap s"
  let ?sn = "snapshot ?h e"
  let ?s1 = "syncRemovedNodes s ?sn"
  let ?ps = "relationPositions ?h e"
  let ?ids = "relationNodeIds ?h e"
  let ?tn = "map (\<lambda>a. typeName (?h ! a)) (doc e)"
  let ?N = "[] :: NodeWithPos list"
  from syncRelationNodes_Inr[OF ed r] obtain memory' where
    lp: "syncInsertedNodesLoop ?s1 [] ?sn = Inr (s', memory')"
    by blast
  have inv1: "passInv ?tn ?s1 [] [] ?sn"
    by (rule passInv_initial[OF ed sep fresh])
  have ed1: "editor ?s1 = Some e" using ed by (simp add: syncRemovedNodes_fields(1))
  have h1: "heap ?s1 = ?h" by (rule syncRemovedNodes_fields(4))
  have ex1: "\<forall>n \<in> set ?sn. itemExists (m2aStore ?s1) (idAt (heap ?s1) e (pos n))"
  proof
    fix n assume "n \<in> set ?sn"
    then have "idAt ?h e (pos n) \<in> (\<lambda>n. idAt ?h e (pos n)) ` set ?sn" by (rule imageI)
    then have "idAt ?h e (pos n) \<in> set (map (\<lambda>n. idAt ?h e (pos n)) ?sn)" by (simp only: set_map)
    then have "idAt ?h e (pos n) \<in> set ?ids" unfolding snapshot_idAt_map .
    then show "itemExists (m2aStore ?s1) (idAt (heap ?s1) e (pos n))"
      using ex by (simp add: itemExists_syncRemovedNodes h1)
  qed
  from loop_ids[OF inv1 ex1 lp ed1] obtain e' where
    e': "editor s' = Some e'"
    and ids0: "\<forall>i < length ?sn.
                itemExists (m2aStore s') (idAt (heap s') e' (pos (?sn ! i)))
                \<and> finalId ?s1 [] (take i (map (\<lambda>n. idAt (heap ?s1) e (pos n)) ?sn))
                     (idAt (heap ?s1) e (pos (?sn ! i))) (idAt (heap s') e' (pos (?sn ! i)))"
    by (elim exE conjE) (rule that, assumption+)
  have ids: "\<forall>i < length ?sn.
                itemExists (m2aStore s') (idAt (heap s') e' (pos (?sn ! i)))
                \<and> finalId ?s1 [] (take i ?ids)
                     (idAt ?h e (pos (?sn ! i))) (idAt (heap s') e' (pos (?sn ! i)))"
    using ids0 unfolding h1 snapshot_idAt_map .
  have "passInv ?tn s' memory' ([] @ map pos ?sn) []"
    using passInv_loop[OF inv1 lp] by blast
  then have inv2: "passInv ?tn s' memory' ?ps []" by simp
  from inv2 obtain e2 where e2: "editor s' = Some e2"
    and tn2: "map (\<lambda>a. typeName (heap s' ! a)) (doc e2) = ?tn"
    and m2: "memory' = filter (itemExists (m2aStore s')) (map (idAt (heap s') e2) ?ps)"
    and dm: "distinct memory'"
    by (rule passInvE)
  have ee: "e2 = e'" using e2 e' by simp
  have tn: "map (\<lambda>a. typeName (heap s' ! a)) (doc e') = ?tn" using tn2 ee by simp
  have m: "memory' = filter (itemExists (m2aStore s')) (map (idAt (heap s') e') ?ps)"
    using m2 ee by simp
  have rp: "relationPositions (heap s') e' = ?ps"
    by (rule relationPositions_cong[OF tn])
  have len: "length ?sn = length ?ps" "length ?ids = length ?ps"
    by (simp_all add: snapshot_def relationNodeIds_def)
  have sn: "pos (?sn ! i) = ?ps ! i" "idAt ?h e (?ps ! i) = ?ids ! i"
    if "i < length ?ps" for i
    using that by (simp_all add: snapshot_def relationNodeIds_def)
  have fin: "relationNodeIds (heap s') e' ! i = idAt (heap s') e' (?ps ! i)" if "i < length ?ps" for i
    using that by (simp add: relationNodeIds_def rp)
  have idsi: "itemExists (m2aStore s') (idAt (heap s') e' (?ps ! i))
              \<and> finalId ?s1 [] (take i ?ids) (?ids ! i) (idAt (heap s') e' (?ps ! i))"
    if "i < length ?ps" for i
  proof -
    from that have "i < length ?sn" using len by simp
    from ids[rule_format, OF this] show ?thesis
      unfolding sn(1)[OF that] sn(2)[OF that] .
  qed
  have allex: "\<forall>v \<in> set (map (idAt (heap s') e') ?ps). itemExists (m2aStore s') v"
  proof
    fix v assume "v \<in> set (map (idAt (heap s') e') ?ps)"
    then obtain i where i: "i < length ?ps" "v = idAt (heap s') e' (?ps ! i)"
      by (auto simp: in_set_conv_nth)
    then show "itemExists (m2aStore s') v"
      using idsi[of i] by simp
  qed
  then have "filter (itemExists (m2aStore s')) (map (idAt (heap s') e') ?ps) = map (idAt (heap s') e') ?ps"
    by (simp add: filter_id_conv)
  then have dist: "distinct (relationNodeIds (heap s') e')"
    using dm m by (simp add: relationNodeIds_def rp)
  have per: "\<forall>i < length ?ids.
                if ?ids ! i \<in> set (take i ?ids)
                   \<or> (itemIsActive (m2aStore s) (?ids ! i)
                       \<and> itemFromDifferentEditor (m2aStore s) (?ids ! i) (editorField s))
                then relationNodeIds (heap s') e' ! i \<notin> set ?ids
                     \<and> \<not> itemExists (m2aStore s) (relationNodeIds (heap s') e' ! i)
                else relationNodeIds (heap s') e' ! i = ?ids ! i"
  proof (intro allI impI)
    fix i assume "i < length ?ids"
    then have i: "i < length ?ps" using len by simp
    let ?u = "?ids ! i"
    let ?v = "relationNodeIds (heap s') e' ! i"
    have uin: "?u \<in> set ?ids" using i len by simp
    have f: "finalId ?s1 [] (take i ?ids) ?u ?v"
      using idsi[OF i] fin[OF i] by simp
    have c: "blocked ?s1 [] ?u \<longleftrightarrow>
               itemIsActive (m2aStore s) ?u \<and> itemFromDifferentEditor (m2aStore s) ?u (editorField s)"
      by (rule blocked_initial[OF uin])
    have "if ?u \<in> set (take i ?ids) \<or> blocked ?s1 [] ?u
          then ?v \<notin> set ?ids \<and> \<not> itemExists (m2aStore s) ?v
          else ?v = ?u"
    proof (cases "?u \<in> set (take i ?ids) \<or> blocked ?s1 [] ?u")
      case True
      then obtain j where "j \<ge> issued (m2aStore ?s1)" "?v = uuids (m2aStore ?s1) j"
        using f unfolding finalId_def by auto
      then have "j \<ge> issued (m2aStore s)" "?v = uuids (m2aStore s) j"
        by (simp_all add: uuids_syncRemovedNodes)
      then have "?v \<notin> set ?ids \<and> \<not> itemExists (m2aStore s) ?v"
        using fresh by (simp add: uuidsUnused_def)
      then show ?thesis using True by simp
    next
      case False
      then have "?v = ?u" using f unfolding finalId_def by simp
      then show ?thesis using False by simp
    qed
    then show "if ?u \<in> set (take i ?ids)
             \<or> (itemIsActive (m2aStore s) ?u \<and> itemFromDifferentEditor (m2aStore s) ?u (editorField s))
          then ?v \<notin> set ?ids \<and> \<not> itemExists (m2aStore s) ?v
          else ?v = ?u"
      unfolding c .
  qed
  show ?thesis
    by (intro exI[of _ e'] conjI e' rp dist per)
qed

text \<open>
  C2, as stated: the first node in document order that carries an identity keeps it.
  In the cross-field scenario every identity of the document has a store item, the
  document holds a single node with identity \<open>U1\<close>, and after the pass that node carries
  the identity \<open>N\<close>: the item of \<open>U1\<close> is active and owned by another field, so the
  first occurrence is duplicated as well.
\<close>

theorem C2_first_occurrence_counterexample:
  "editor crossFieldBefore = Some \<lparr>doc = [0], dispatched = []\<rparr>
   \<and> relationNodeIds (heap crossFieldBefore) \<lparr>doc = [0], dispatched = []\<rparr> = [''U1'']
   \<and> itemExists (m2aStore crossFieldBefore) ''U1''
   \<and> syncRelationNodes crossFieldBefore = Inr crossFieldAfter
   \<and> editor crossFieldAfter =
        Some \<lparr>doc = [1], dispatched = [silentMarkup 0 \<lparr>attrs_id = ''N'', attrs_rest = Map.empty\<rparr>]\<rparr>
   \<and> relationNodeIds (heap crossFieldAfter)
        \<lparr>doc = [1], dispatched = [silentMarkup 0 \<lparr>attrs_id = ''N'', attrs_rest = Map.empty\<rparr>]\<rparr> = [''N'']
   \<and> ''N'' \<noteq> ''U1''"
proof -
  have 1: "editor crossFieldBefore = Some \<lparr>doc = [0], dispatched = []\<rparr>"
    by (simp add: crossFieldBefore_def exampleState_def)
  have 2: "relationNodeIds (heap crossFieldBefore) \<lparr>doc = [0], dispatched = []\<rparr> = [''U1'']"
    by (simp add: crossFieldBefore_def exampleState_def relationNodeIds_def relationPositions_def
        idAt_def relationBlock_def)
  have 3: "itemExists (m2aStore crossFieldBefore) ''U1''"
    by (simp add: crossFieldBefore_def exampleState_def itemExists_def getItem_def)
  have 4: "editor crossFieldAfter =
        Some \<lparr>doc = [1], dispatched = [silentMarkup 0 \<lparr>attrs_id = ''N'', attrs_rest = Map.empty\<rparr>]\<rparr>"
    by (simp add: crossFieldAfter_def)
  have 5: "relationNodeIds (heap crossFieldAfter)
        \<lparr>doc = [1], dispatched = [silentMarkup 0 \<lparr>attrs_id = ''N'', attrs_rest = Map.empty\<rparr>]\<rparr> = [''N'']"
    by (simp add: crossFieldAfter_def relationNodeIds_def relationPositions_def
        idAt_def relationBlock_def)
  have 6: "''N'' \<noteq> ''U1''" by simp
  show ?thesis
    by (intro conjI 1 2 3 4 5 6 crossField_pass)
qed

text \<open>
  C2, amended: for every document whose relation blocks are separate node objects and
  in which every node identity has an item in the store, and provided the identities
  that the store's \<^verbatim>\<open>duplicateItem\<close> hands out are fresh (they differ from one another, are
  not keys of the store and are not identities of the document), the pass completes and
  afterwards no two relation blocks of the document share an identity. A node keeps its
  identity when it is the first in document order to carry it and its store item is
  not, before the pass, active and owned by a different editor field. Every other node
  (a later node with the same identity, or any node whose item is active and owned by a
  different field) has its identity attribute replaced by a fresh identity, one that is
  neither an identity of the document nor a key of the store before the pass.
\<close>

theorem C2_identities_after_pass:
  assumes ed: "editor s = Some e"
    and sep: "separateBlocks (heap s) e"
    and fresh: "uuidsUnused s (set (relationNodeIds (heap s) e))"
    and ex: "\<forall>u \<in> set (relationNodeIds (heap s) e). itemExists (m2aStore s) u"
  shows "\<exists>s' e'. syncRelationNodes s = Inr s'
          \<and> editor s' = Some e'
          \<and> relationPositions (heap s') e' = relationPositions (heap s) e
          \<and> distinct (relationNodeIds (heap s') e')
          \<and> (\<forall>i < length (relationNodeIds (heap s) e).
                if relationNodeIds (heap s) e ! i \<in> set (take i (relationNodeIds (heap s) e))
                   \<or> (itemIsActive (m2aStore s) (relationNodeIds (heap s) e ! i)
                       \<and> itemFromDifferentEditor (m2aStore s) (relationNodeIds (heap s) e ! i) (editorField s))
                then relationNodeIds (heap s') e' ! i \<notin> set (relationNodeIds (heap s) e)
                     \<and> \<not> itemExists (m2aStore s) (relationNodeIds (heap s') e' ! i)
                else relationNodeIds (heap s') e' ! i = relationNodeIds (heap s) e ! i)"
proof -
  from syncRelationNodes_total[OF ed] obtain s' where r: "syncRelationNodes s = Inr s'"
    by blast
  from identities_after_pass[OF ed sep fresh ex r] show ?thesis
    using r by blast
qed

theorem C2_identities_after_pass_witness:
  "editor duplicateBefore = Some \<lparr>doc = [0, 1], dispatched = []\<rparr>
   \<and> heap duplicateBefore = [relationBlock ''U1'', relationBlock ''U1'']
   \<and> separateBlocks (heap duplicateBefore) \<lparr>doc = [0, 1], dispatched = []\<rparr>
   \<and> uuidsUnused duplicateBefore
        (set (relationNodeIds (heap duplicateBefore) \<lparr>doc = [0, 1], dispatched = []\<rparr>))
   \<and> relationNodeIds (heap duplicateBefore) \<lparr>doc = [0, 1], dispatched = []\<rparr> = [''U1'', ''U1'']
   \<and> itemExists (m2aStore duplicateBefore) ''U1''
   \<and> syncRelationNodes duplicateBefore = Inr duplicateAfter
   \<and> (\<exists>e'. editor duplicateAfter = Some e'
          \<and> distinct (relationNodeIds (heap duplicateAfter) e')
          \<and> relationNodeIds (heap duplicateAfter) e' ! 0 = ''U1''
          \<and> relationNodeIds (heap duplicateAfter) e' ! 1 \<noteq> ''U1''
          \<and> \<not> itemExists (m2aStore duplicateBefore) (relationNodeIds (heap duplicateAfter) e' ! 1))"
proof -
  let ?E = "\<lparr>doc = [0, 1], dispatched = []\<rparr> :: Editor"
  let ?H = "heap duplicateBefore"
  have hp: "?H = [relationBlock ''U1'', relationBlock ''U1'']"
    by (simp add: duplicateBefore_def exampleState_def)
  have rps: "relationPositions ?H ?E = [0, 1]"
    by (simp add: hp relationPositions_def relationBlock_def upt_rec)
  have ids: "relationNodeIds ?H ?E = [''U1'', ''U1'']"
    by (simp add: hp relationNodeIds_def relationPositions_def idAt_def relationBlock_def upt_rec)
  have e: "editor duplicateBefore = Some ?E"
    by (simp add: duplicateBefore_def exampleState_def)
  have sp: "separateBlocks ?H ?E"
    unfolding separateBlocks_def rps by (simp add: hp)
  have f: "uuidsUnused duplicateBefore (set (relationNodeIds ?H ?E))"
    unfolding ids unfolding duplicateBefore_def
    by (rule exampleUuids_unused) simp
  have x: "\<forall>u \<in> set (relationNodeIds ?H ?E). itemExists (m2aStore duplicateBefore) u"
    unfolding ids
    by (simp add: duplicateBefore_def exampleState_def itemExists_def getItem_def)
  have a: "\<not> (itemIsActive (m2aStore duplicateBefore) ''U1''
              \<and> itemFromDifferentEditor (m2aStore duplicateBefore) ''U1'' (editorField duplicateBefore))"
    by (simp add: duplicateBefore_def exampleState_def exampleItem_def
        itemFromDifferentEditor_def getItem_def)
  from C2_identities_after_pass[OF e sp f x] obtain s' e' where
    r': "syncRelationNodes duplicateBefore = Inr s'"
    and e'': "editor s' = Some e'" and d0: "distinct (relationNodeIds (heap s') e')"
    and p: "\<forall>i < length (relationNodeIds ?H ?E).
                if relationNodeIds ?H ?E ! i \<in> set (take i (relationNodeIds ?H ?E))
                   \<or> (itemIsActive (m2aStore duplicateBefore) (relationNodeIds ?H ?E ! i)
                       \<and> itemFromDifferentEditor (m2aStore duplicateBefore) (relationNodeIds ?H ?E ! i)
                            (editorField duplicateBefore))
                then relationNodeIds (heap s') e' ! i \<notin> set (relationNodeIds ?H ?E)
                     \<and> \<not> itemExists (m2aStore duplicateBefore) (relationNodeIds (heap s') e' ! i)
                else relationNodeIds (heap s') e' ! i = relationNodeIds ?H ?E ! i"
    by blast
  have ss: "s' = duplicateAfter" using r' duplicate_pass by simp
  have e': "editor duplicateAfter = Some e'" using e'' ss by simp
  have d: "distinct (relationNodeIds (heap duplicateAfter) e')" using d0 ss by simp
  from p[rule_format, of 0] a have p0: "relationNodeIds (heap duplicateAfter) e' ! 0 = ''U1''"
    unfolding ids ss by simp
  from p[rule_format, of 1] have p1: "relationNodeIds (heap duplicateAfter) e' ! 1 \<noteq> ''U1''
      \<and> \<not> itemExists (m2aStore duplicateBefore) (relationNodeIds (heap duplicateAfter) e' ! 1)"
    unfolding ids ss by simp
  have x1: "itemExists (m2aStore duplicateBefore) ''U1''"
    using x unfolding ids by simp
  show ?thesis
    using e hp sp f ids x1 duplicate_pass e' d p0 p1 by blast
qed

end
